theory Spec2Isabelle
  imports Complex_Main "HOL-Library.Word" "HOL-Library.While_Combinator"
begin

section \<open>Strings and normalisation (text-utils.js)\<close>

text \<open>
  A JavaScript string is a sequence of UTF-16 code units; \<open>.length\<close> counts code units
  and \<open>s[i]\<close> reads one. Cyrillic letters of the Basic Multilingual Plane are one code
  unit each.
\<close>

type_synonym code_unit = "16 word"
type_synonym jstring = "code_unit list"

text \<open>The regular-expression class \<open>\s\<close> of ECMAScript (WhiteSpace and LineTerminator).\<close>

definition isWhiteSpace :: "code_unit \<Rightarrow> bool" where
  "isWhiteSpace c =
     ((0x0009 \<le> c \<and> c \<le> 0x000D) \<or> c = 0x0020 \<or> c = 0x00A0 \<or> c = 0x1680 \<or>
      (0x2000 \<le> c \<and> c \<le> 0x200A) \<or> c = 0x2028 \<or> c = 0x2029 \<or> c = 0x202F \<or>
      c = 0x205F \<or> c = 0x3000 \<or> c = 0xFEFF)"

text \<open>
  The character class of \<open>stripPunctuation\<close>:
  \<open>. , ! ? ; :\<close>, em dash, en dash, hyphen, the guillemets, the double and the single
  quote, the parentheses, the ellipsis, and \<open>\s\<close>.
\<close>

definition isEdgeChar :: "code_unit \<Rightarrow> bool" where
  "isEdgeChar c =
     (c = 0x002E \<or> c = 0x002C \<or> c = 0x0021 \<or> c = 0x003F \<or> c = 0x003B \<or> c = 0x003A \<or>
      c = 0x2014 \<or> c = 0x2013 \<or> c = 0x002D \<or> c = 0x00AB \<or> c = 0x00BB \<or>
      c = 0x0022 \<or> c = 0x0027 \<or> c = 0x0028 \<or> c = 0x0029 \<or> c = 0x2026 \<or>
      isWhiteSpace c)"

text \<open>
  \<open>word.replace(/^[...]+|[...]+$/g, '')\<close>: the first alternative removes the maximal
  run of class characters at the start, the second the maximal run at the end of what is
  left (nothing is left when the whole string is in the class).
\<close>

definition stripPunctuation :: "jstring \<Rightarrow> jstring" where
  "stripPunctuation word = rev (dropWhile isEdgeChar (rev (dropWhile isEdgeChar word)))"

text \<open>
  \<open>stripPunctuation(w).toLowerCase()\<close>. The built-in \<open>toLowerCase\<close> is the parameter
  \<open>lc\<close> of every function that normalises; the theorems hold for each \<open>lc\<close>.
\<close>

definition base_form :: "(jstring \<Rightarrow> jstring) \<Rightarrow> jstring \<Rightarrow> jstring" where
  "base_form lc w = lc (stripPunctuation w)"

text \<open>
  A lower-casing for the concrete examples: ASCII \<open>A-Z\<close>, Cyrillic \<open>U+0410..U+042F\<close>
  (to \<open>U+0430..U+044F\<close>) and \<open>U+0400..U+040F\<close> (to \<open>U+0450..U+045F\<close>), where
  \<open>toLowerCase\<close> maps code unit by code unit; every other code unit is left as it is.
\<close>

definition lowerUnit :: "code_unit \<Rightarrow> code_unit" where
  "lowerUnit c =
     (if 0x0041 \<le> c \<and> c \<le> 0x005A then c + 0x20
      else if 0x0410 \<le> c \<and> c \<le> 0x042F then c + 0x20
      else if 0x0400 \<le> c \<and> c \<le> 0x040F then c + 0x50
      else c)"

definition toLowerCase :: "jstring \<Rightarrow> jstring" where
  "toLowerCase s = map lowerUnit s"

section \<open>Edit distance and fuzzy matching (text-utils.js)\<close>

text \<open>
  The inner loop \<open>for (j = 1; j <= a.length; j++)\<close> of \<open>editDistance\<close>, for the row of
  the character \<open>bi = b[i - 1]\<close>. It is entered with \<open>j = 1\<close> only, so \<open>j - 1\<close> is never
  negative.
\<close>

function inner_loop :: "jstring \<Rightarrow> code_unit \<Rightarrow> nat list \<Rightarrow> nat list \<Rightarrow> nat \<Rightarrow> nat list" where
  "inner_loop a bi prevRow currRow j =
     (if j \<le> length a then
        (let cost = (if a ! (j - 1) = bi then 0 else 1) in
         inner_loop a bi prevRow
           (currRow[j := min (prevRow ! j + 1) (min (currRow ! (j - 1) + 1) (prevRow ! (j - 1) + cost))])
           (j + 1))
      else currRow)"
  by pat_completeness auto
termination
  by (relation "measure (\<lambda>(a, bi, prevRow, currRow, j). Suc (length a) - j)") auto

text \<open>
  The outer loop \<open>for (i = 1; i <= b.length; i++)\<close>; the swap \<open>[prev, curr] = [curr, prev]\<close>
  is the exchange of the two row arguments in the recursive call. The rows \<open>prev\<close> and
  \<open>curr\<close> of the source are \<open>prevRow\<close> and \<open>currRow\<close> here.
\<close>

function outer_loop :: "jstring \<Rightarrow> jstring \<Rightarrow> nat list \<Rightarrow> nat list \<Rightarrow> nat \<Rightarrow> nat list" where
  "outer_loop a b prevRow currRow i =
     (if i \<le> length b then
        outer_loop a b (inner_loop a (b ! (i - 1)) prevRow (currRow[0 := i]) 1) prevRow (i + 1)
      else prevRow)"
  by pat_completeness auto
termination
  by (relation "measure (\<lambda>(a, b, prevRow, currRow, i). Suc (length b) - i)") auto

declare inner_loop.simps [simp del] outer_loop.simps [simp del]

text \<open>
  The rows after the early returns and the swap: \<open>a\<close> is the shorter string. The cells of
  \<open>new Array(a.length + 1)\<close> are unset; each is written before it is read
  (lemma \<open>rolling_rows_curr_irrelevant\<close>), and the model fills them with 0.
\<close>

definition rolling_rows :: "jstring \<Rightarrow> jstring \<Rightarrow> nat" where
  "rolling_rows a b =
     outer_loop a b [0..<length a + 1] (replicate (length a + 1) 0) 1 ! length a"

definition editDistance :: "jstring \<Rightarrow> jstring \<Rightarrow> nat" where
  "editDistance a b =
     (if length a = 0 then length b
      else if length b = 0 then length a
      else if length a > length b then rolling_rows b a
      else rolling_rows a b)"

text \<open>
  \<open>Math.floor(maxLen * 0.3)\<close> is \<open>maxLen * 3 div 10\<close>: the double nearest to the
  product is the exact value when that is an integer, and otherwise lies strictly between
  the same two integers, for every length a string can have.
\<close>

definition isFuzzyMatch :: "jstring \<Rightarrow> jstring \<Rightarrow> bool" where
  "isFuzzyMatch a b =
     (if length a < 4 \<or> length b < 4 then False
      else (let dist = editDistance a b;
                maxLen = max (length a) (length b)
            in dist \<le> max 2 (maxLen * 3 div 10)))"

section \<open>Words with timing\<close>

text \<open>
  A word of a transcript, \<open>{word, start, end}\<close>, with the field \<open>end\<close> named
  \<open>end_time\<close> here; times are JavaScript numbers, modelled as real numbers (rounding is
  not modelled). The record is extensible: the spread
  \<open>{...original, word: w}\<close> of \<open>addPunctuation\<close> is \<open>original\<lparr>word := w\<rparr>\<close> and keeps
  every other field.
\<close>

record timed_word =
  word :: jstring
  start :: real
  end_time :: real

section \<open>alignWhisperToOriginal (text-utils.js)\<close>

text \<open>
  \<open>for (la = 1; la <= 3 && wi + la < whisperWords.length; la++)\<close>: the first \<open>la\<close> whose
  whisper word matches \<open>origBase\<close>, if any.
\<close>

function lookahead_whisper ::
  "(jstring \<Rightarrow> jstring) \<Rightarrow> timed_word list \<Rightarrow> nat \<Rightarrow> jstring \<Rightarrow> nat \<Rightarrow> nat option" where
  "lookahead_whisper lc whisperWords wi origBase la =
     (if la \<le> 3 \<and> wi + la < length whisperWords then
        (let laBase = base_form lc (word (whisperWords ! (wi + la))) in
         if laBase = origBase \<or> isFuzzyMatch laBase origBase then Some la
         else lookahead_whisper lc whisperWords wi origBase (la + 1))
      else None)"
  by pat_completeness auto
termination
  by (relation "measure (\<lambda>(lc, whisperWords, wi, origBase, la). 4 - la)") auto

text \<open>
  \<open>for (la = 1; la <= 3 && oi + la < originalWords.length; la++)\<close>: the first \<open>la\<close> whose
  original word matches \<open>whisperBase\<close>, if any.
\<close>

function lookahead_original ::
  "(jstring \<Rightarrow> jstring) \<Rightarrow> jstring list \<Rightarrow> nat \<Rightarrow> jstring \<Rightarrow> nat \<Rightarrow> nat option" where
  "lookahead_original lc originalWords oi whisperBase la =
     (if la \<le> 3 \<and> oi + la < length originalWords then
        (let futureBase = base_form lc (originalWords ! (oi + la)) in
         if futureBase = whisperBase \<or> isFuzzyMatch futureBase whisperBase then Some la
         else lookahead_original lc originalWords oi whisperBase (la + 1))
      else None)"
  by pat_completeness auto
termination
  by (relation "measure (\<lambda>(lc, originalWords, oi, whisperBase, la). 4 - la)") auto

declare lookahead_whisper.simps [simp del] lookahead_original.simps [simp del]

text \<open>
  One iteration of \<open>while (oi < originalWords.length)\<close>, on the state
  \<open>(result, wi, oi)\<close>. The sentinel time is \<open>-1\<close>.
\<close>

fun align_step ::
  "(jstring \<Rightarrow> jstring) \<Rightarrow> timed_word list \<Rightarrow> jstring list \<Rightarrow>
   timed_word list \<times> nat \<times> nat \<Rightarrow> timed_word list \<times> nat \<times> nat" where
  "align_step lc whisperWords originalWords (result, wi, oi) =
     (let origWord = originalWords ! oi;
          origBase = base_form lc origWord;
          leadingSpace = (if oi > 0 then [0x20] else [])
      in
      if wi < length whisperWords then
        (let whisperBase = base_form lc (word (whisperWords ! wi)) in
         if origBase = whisperBase \<or> isFuzzyMatch origBase whisperBase then
           (result @ [\<lparr>word = leadingSpace @ origWord,
                        start = start (whisperWords ! wi),
                        end_time = end_time (whisperWords ! wi)\<rparr>],
            wi + 1, oi + 1)
         else
           (case lookahead_whisper lc whisperWords wi origBase 1 of
              Some la \<Rightarrow>
                (result @ [\<lparr>word = leadingSpace @ origWord,
                             start = start (whisperWords ! (wi + la)),
                             end_time = end_time (whisperWords ! (wi + la))\<rparr>],
                 wi + la + 1, oi + 1)
            | None \<Rightarrow>
                (case lookahead_original lc originalWords oi whisperBase 1 of
                   Some la \<Rightarrow>
                     (result @
                        map (\<lambda>skip. \<lparr>word = (if oi + skip > 0 then [0x20] else []) @
                                              originalWords ! (oi + skip),
                                       start = - 1, end_time = - 1\<rparr>) [0..<la],
                      wi, oi + la)
                 | None \<Rightarrow>
                     (result @ [\<lparr>word = leadingSpace @ origWord, start = - 1, end_time = - 1\<rparr>],
                      wi, oi + 1))))
      else
        (result @ [\<lparr>word = leadingSpace @ origWord, start = - 1, end_time = - 1\<rparr>],
         wi, oi + 1))"

declare align_step.simps [simp del]

lemma lookahead_original_bounds:
  "lookahead_original lc originalWords oi whisperBase la0 = Some la \<Longrightarrow>
   la0 \<le> la \<and> la \<le> 3 \<and> oi + la < length originalWords"
proof (induction lc originalWords oi whisperBase la0 rule: lookahead_original.induct)
  case (1 lc originalWords oi whisperBase la0)
  show ?case
  proof (cases "la0 \<le> 3 \<and> oi + la0 < length originalWords")
    case True
    show ?thesis
    proof (cases "base_form lc (originalWords ! (oi + la0)) = whisperBase \<or>
                  isFuzzyMatch (base_form lc (originalWords ! (oi + la0))) whisperBase")
      case m: True
      with True "1.prems" have "la = la0"
        by (subst (asm) lookahead_original.simps) (simp add: Let_def)
      with True show ?thesis by simp
    next
      case m: False
      with True "1.prems" have "lookahead_original lc originalWords oi whisperBase (la0 + 1) = Some la"
        by (subst (asm) lookahead_original.simps) (simp add: Let_def)
      with "1.IH"[OF True refl] m show ?thesis by auto
    qed
  next
    case False
    with "1.prems" show ?thesis
      by (subst (asm) lookahead_original.simps) simp
  qed
qed

lemma lookahead_whisper_bounds:
  "lookahead_whisper lc whisperWords wi origBase la0 = Some la \<Longrightarrow>
   la0 \<le> la \<and> la \<le> 3 \<and> wi + la < length whisperWords"
proof (induction lc whisperWords wi origBase la0 rule: lookahead_whisper.induct)
  case (1 lc whisperWords wi origBase la0)
  show ?case
  proof (cases "la0 \<le> 3 \<and> wi + la0 < length whisperWords")
    case True
    show ?thesis
    proof (cases "base_form lc (word (whisperWords ! (wi + la0))) = origBase \<or>
                  isFuzzyMatch (base_form lc (word (whisperWords ! (wi + la0)))) origBase")
      case m: True
      with True "1.prems" have "la = la0"
        by (subst (asm) lookahead_whisper.simps) (simp add: Let_def)
      with True show ?thesis by simp
    next
      case m: False
      with True "1.prems" have "lookahead_whisper lc whisperWords wi origBase (la0 + 1) = Some la"
        by (subst (asm) lookahead_whisper.simps) (simp add: Let_def)
      with "1.IH"[OF True refl] m show ?thesis by auto
    qed
  next
    case False
    with "1.prems" show ?thesis
      by (subst (asm) lookahead_whisper.simps) simp
  qed
qed

lemma align_step_oi:
  assumes "oi < length originalWords"
    and "align_step lc whisperWords originalWords (result, wi, oi) = (result', wi', oi')"
  shows "oi < oi' \<and> oi' \<le> length originalWords"
  using assms lookahead_original_bounds[of lc originalWords oi "base_form lc (word (whisperWords ! wi))" 1]
  by (auto simp: align_step.simps Let_def Suc_le_eq split: if_splits option.splits)

text \<open>The loop \<open>while (oi < originalWords.length)\<close>.\<close>

function align_loop ::
  "(jstring \<Rightarrow> jstring) \<Rightarrow> timed_word list \<Rightarrow> jstring list \<Rightarrow>
   timed_word list \<times> nat \<times> nat \<Rightarrow> timed_word list \<times> nat \<times> nat" where
  "align_loop lc whisperWords originalWords (result, wi, oi) =
     (if oi < length originalWords then
        align_loop lc whisperWords originalWords
          (align_step lc whisperWords originalWords (result, wi, oi))
      else (result, wi, oi))"
  by pat_completeness auto
termination
  apply (relation "measure (\<lambda>(lc, whisperWords, originalWords, result, wi, oi). length originalWords - oi)")
   apply simp
  subgoal for lc whisperWords originalWords result wi oi
    using align_step_oi[of oi originalWords lc whisperWords result wi]
    by (cases "align_step lc whisperWords originalWords (result, wi, oi)") auto
  done

declare align_loop.simps [simp del]

section \<open>Interpolation of the unmatched words\<close>

text \<open>
  \<open>let prevEnd = 0; for (j = i - 1; j >= 0; j--) if (result[j].end !== -1) { prevEnd =
  result[j].end; break; }\<close>. The argument counts the indices still to visit: \<open>Suc j\<close>
  visits index \<open>j\<close>.
\<close>

fun find_prevEnd :: "timed_word list \<Rightarrow> nat \<Rightarrow> real" where
  "find_prevEnd result 0 = 0"
| "find_prevEnd result (Suc j) =
     (if end_time (result ! j) \<noteq> - 1 then end_time (result ! j) else find_prevEnd result j)"

text \<open>
  \<open>for (j = i + 1; j < result.length; j++) { if (result[j].start !== -1) { nextStart =
  result[j].start; break; } gapCount++; }\<close>, from \<open>nextStart = totalDuration\<close>; it returns
  \<open>(nextStart, gapCount)\<close>.
\<close>

function find_nextStart :: "real \<Rightarrow> timed_word list \<Rightarrow> nat \<Rightarrow> nat \<Rightarrow> real \<times> nat" where
  "find_nextStart totalDuration result j gapCount =
     (if j < length result then
        (if start (result ! j) \<noteq> - 1 then (start (result ! j), gapCount)
         else find_nextStart totalDuration result (j + 1) (gapCount + 1))
      else (totalDuration, gapCount))"
  by pat_completeness auto
termination
  by (relation "measure (\<lambda>(totalDuration, result, j, gapCount). length result - j)") auto

text \<open>
  \<open>for (j = i; j < result.length && result[j].start === -1; j++) { pos++; result[j].start =
  prevEnd + step * pos; result[j].end = prevEnd + step * (pos + 0.8); }\<close>
\<close>

function fill_gap :: "real \<Rightarrow> real \<Rightarrow> timed_word list \<Rightarrow> nat \<Rightarrow> nat \<Rightarrow> timed_word list" where
  "fill_gap prevEnd step result j pos =
     (if j < length result \<and> start (result ! j) = - 1 then
        fill_gap prevEnd step
          (result[j := (result ! j)\<lparr>start := prevEnd + step * real (pos + 1),
                                     end_time := prevEnd + step * (real (pos + 1) + 0.8)\<rparr>])
          (j + 1) (pos + 1)
      else result)"
  by pat_completeness auto
termination
  by (relation "measure (\<lambda>(prevEnd, step, result, j, pos). length result - j)") auto

declare find_nextStart.simps [simp del] fill_gap.simps [simp del]

lemma length_fill_gap: "length (fill_gap prevEnd step result j pos) = length result"
proof (induction prevEnd step result j pos rule: fill_gap.induct)
  case (1 prevEnd step result j pos)
  show ?case
  proof (cases "j < length result \<and> start (result ! j) = - 1")
    case True
    then show ?thesis using "1.IH" by (subst fill_gap.simps) simp
  next
    case False
    then show ?thesis by (subst fill_gap.simps) auto
  qed
qed

text \<open>The loop \<open>for (i = 0; i < result.length; i++)\<close> over the result of the walk.\<close>

function interpolate :: "real \<Rightarrow> timed_word list \<Rightarrow> nat \<Rightarrow> timed_word list" where
  "interpolate totalDuration result i =
     (if i < length result then
        (if start (result ! i) = - 1 then
           (let prevEnd = find_prevEnd result i;
                (nextStart, gapCount) = find_nextStart totalDuration result (i + 1) 1;
                step = (nextStart - prevEnd) / real (gapCount + 1)
            in interpolate totalDuration (fill_gap prevEnd step result i 0) (i + 1))
         else interpolate totalDuration result (i + 1))
      else result)"
  by pat_completeness auto
termination
  by (relation "measure (\<lambda>(totalDuration, result, i). length result - i)")
     (auto simp: length_fill_gap)

declare interpolate.simps [simp del]

text \<open>
  \<open>alignWhisperToOriginal\<close>: the early return when either list is empty, the walk from
  \<open>(result, wi, oi) = ([], 0, 0)\<close>, and the interpolation with \<open>totalDuration\<close> the end of
  the last whisper word.
\<close>

definition alignWhisperToOriginal ::
  "(jstring \<Rightarrow> jstring) \<Rightarrow> timed_word list \<Rightarrow> jstring list \<Rightarrow> timed_word list" where
  "alignWhisperToOriginal lc whisperWords originalWords =
     (if length whisperWords = 0 \<or> length originalWords = 0 then
        map (\<lambda>(i, w). \<lparr>word = (if i > 0 then [0x20] else []) @ w, start = 0, end_time = 0\<rparr>)
          (enumerate 0 originalWords)
      else
        (let (result, wi, oi) = align_loop lc whisperWords originalWords ([], 0, 0);
             totalDuration = end_time (whisperWords ! (length whisperWords - 1))
         in interpolate totalDuration result 0))"

section \<open>The alignment walk of addPunctuation (tts.js)\<close>

text \<open>\<open>original.word.match(/^\s*/)[0]\<close>: the leading white space of the word.\<close>

definition leadingWhitespace :: "jstring \<Rightarrow> jstring" where
  "leadingWhitespace w = takeWhile isWhiteSpace w"

text \<open>
  \<open>for (lookahead = 1; lookahead <= 3 && pi + lookahead < punctuatedBatch.length;
  lookahead++)\<close>. The index \<open>pi\<close> of the source is \<open>pidx\<close> here.
\<close>

function lookahead_punctuated ::
  "(jstring \<Rightarrow> jstring) \<Rightarrow> jstring list \<Rightarrow> nat \<Rightarrow> jstring \<Rightarrow> nat \<Rightarrow> nat option" where
  "lookahead_punctuated lc punctuatedBatch pidx origBase lookahead =
     (if lookahead \<le> 3 \<and> pidx + lookahead < length punctuatedBatch then
        (let lookaheadBase = base_form lc (punctuatedBatch ! (pidx + lookahead)) in
         if lookaheadBase = origBase \<or> isFuzzyMatch lookaheadBase origBase then Some lookahead
         else lookahead_punctuated lc punctuatedBatch pidx origBase (lookahead + 1))
      else None)"
  by pat_completeness auto
termination
  by (relation "measure (\<lambda>(lc, punctuatedBatch, pidx, origBase, lookahead). 4 - lookahead)") auto

text \<open>
  \<open>for (lookahead = 1; lookahead <= 3 && oi + lookahead < batchWords.length; lookahead++)\<close>
\<close>

function lookahead_batch ::
  "(jstring \<Rightarrow> jstring) \<Rightarrow> 'a timed_word_scheme list \<Rightarrow> nat \<Rightarrow> jstring \<Rightarrow> nat \<Rightarrow> nat option" where
  "lookahead_batch lc batchWords oi punctBase lookahead =
     (if lookahead \<le> 3 \<and> oi + lookahead < length batchWords then
        (let futureBase = base_form lc (word (batchWords ! (oi + lookahead))) in
         if futureBase = punctBase \<or> isFuzzyMatch futureBase punctBase then Some lookahead
         else lookahead_batch lc batchWords oi punctBase (lookahead + 1))
      else None)"
  by pat_completeness auto
termination
  by (relation "measure (\<lambda>(lc, batchWords, oi, punctBase, lookahead). 4 - lookahead)") auto

declare lookahead_punctuated.simps [simp del] lookahead_batch.simps [simp del]

text \<open>
  One iteration of \<open>while (oi < batchWords.length)\<close>, on the state
  \<open>(punctuatedWords, oi, pidx, matched)\<close>.
\<close>

fun punct_step ::
  "(jstring \<Rightarrow> jstring) \<Rightarrow> 'a timed_word_scheme list \<Rightarrow> jstring list \<Rightarrow>
   'a timed_word_scheme list \<times> nat \<times> nat \<times> nat \<Rightarrow> 'a timed_word_scheme list \<times> nat \<times> nat \<times> nat" where
  "punct_step lc batchWords punctuatedBatch (punctuatedWords, oi, pidx, matched) =
     (let original = batchWords ! oi;
          leadingSpace = leadingWhitespace (word original);
          origBase = base_form lc (word original)
      in
      if pidx < length punctuatedBatch then
        (let punctBase = base_form lc (punctuatedBatch ! pidx) in
         if origBase = punctBase \<or> isFuzzyMatch origBase punctBase then
           (punctuatedWords @ [original\<lparr>word := leadingSpace @ punctuatedBatch ! pidx\<rparr>],
            oi + 1, pidx + 1, matched + 1)
         else
           (case lookahead_punctuated lc punctuatedBatch pidx origBase 1 of
              Some lookahead \<Rightarrow>
                (punctuatedWords @
                   [original\<lparr>word := leadingSpace @ punctuatedBatch ! (pidx + lookahead)\<rparr>],
                 oi + 1, pidx + lookahead + 1, matched + 1)
            | None \<Rightarrow>
                (case lookahead_batch lc batchWords oi punctBase 1 of
                   Some lookahead \<Rightarrow>
                     (punctuatedWords @ map (\<lambda>skip. batchWords ! (oi + skip)) [0..<lookahead],
                      oi + lookahead, pidx, matched)
                 | None \<Rightarrow> (punctuatedWords @ [original], oi + 1, pidx, matched))))
      else (punctuatedWords @ [original], oi + 1, pidx, matched))"

declare punct_step.simps [simp del]

lemma lookahead_batch_bounds:
  "lookahead_batch lc batchWords oi punctBase la0 = Some la \<Longrightarrow>
   la0 \<le> la \<and> la \<le> 3 \<and> oi + la < length batchWords"
proof (induction lc batchWords oi punctBase la0 rule: lookahead_batch.induct)
  case (1 lc batchWords oi punctBase la0)
  show ?case
  proof (cases "la0 \<le> 3 \<and> oi + la0 < length batchWords")
    case True
    show ?thesis
    proof (cases "base_form lc (word (batchWords ! (oi + la0))) = punctBase \<or>
                  isFuzzyMatch (base_form lc (word (batchWords ! (oi + la0)))) punctBase")
      case m: True
      with True "1.prems" have "la = la0"
        by (subst (asm) lookahead_batch.simps) (simp add: Let_def)
      with True show ?thesis by simp
    next
      case m: False
      with True "1.prems" have "lookahead_batch lc batchWords oi punctBase (la0 + 1) = Some la"
        by (subst (asm) lookahead_batch.simps) (simp add: Let_def)
      with "1.IH"[OF True refl] m show ?thesis by auto
    qed
  next
    case False
    with "1.prems" show ?thesis
      by (subst (asm) lookahead_batch.simps) simp
  qed
qed

lemma lookahead_punctuated_bounds:
  "lookahead_punctuated lc punctuatedBatch pidx origBase la0 = Some la \<Longrightarrow>
   la0 \<le> la \<and> la \<le> 3 \<and> pidx + la < length punctuatedBatch \<and>
   (base_form lc (punctuatedBatch ! (pidx + la)) = origBase \<or>
    isFuzzyMatch (base_form lc (punctuatedBatch ! (pidx + la))) origBase)"
proof (induction lc punctuatedBatch pidx origBase la0 rule: lookahead_punctuated.induct)
  case (1 lc punctuatedBatch pidx origBase la0)
  show ?case
  proof (cases "la0 \<le> 3 \<and> pidx + la0 < length punctuatedBatch")
    case True
    show ?thesis
    proof (cases "base_form lc (punctuatedBatch ! (pidx + la0)) = origBase \<or>
                  isFuzzyMatch (base_form lc (punctuatedBatch ! (pidx + la0))) origBase")
      case m: True
      with True "1.prems" have "la = la0"
        by (subst (asm) lookahead_punctuated.simps) (simp add: Let_def)
      with True m show ?thesis by simp
    next
      case m: False
      with True "1.prems" have "lookahead_punctuated lc punctuatedBatch pidx origBase (la0 + 1) = Some la"
        by (subst (asm) lookahead_punctuated.simps) (simp add: Let_def)
      with "1.IH"[OF True refl] m show ?thesis by auto
    qed
  next
    case False
    with "1.prems" show ?thesis
      by (subst (asm) lookahead_punctuated.simps) simp
  qed
qed

lemma punct_step_oi:
  assumes "oi < length batchWords"
    and "punct_step lc batchWords punctuatedBatch (punctuatedWords, oi, pidx, matched) =
         (punctuatedWords', oi', pidx', matched')"
  shows "oi < oi' \<and> oi' \<le> length batchWords"
  using assms
    lookahead_batch_bounds[of lc batchWords oi "base_form lc (punctuatedBatch ! pidx)" 1]
  by (auto simp: punct_step.simps Let_def Suc_le_eq split: if_splits option.splits)

function punct_loop ::
  "(jstring \<Rightarrow> jstring) \<Rightarrow> 'a timed_word_scheme list \<Rightarrow> jstring list \<Rightarrow>
   'a timed_word_scheme list \<times> nat \<times> nat \<times> nat \<Rightarrow> 'a timed_word_scheme list \<times> nat \<times> nat \<times> nat" where
  "punct_loop lc batchWords punctuatedBatch (punctuatedWords, oi, pidx, matched) =
     (if oi < length batchWords then
        punct_loop lc batchWords punctuatedBatch
          (punct_step lc batchWords punctuatedBatch (punctuatedWords, oi, pidx, matched))
      else (punctuatedWords, oi, pidx, matched))"
  by pat_completeness auto
termination
  apply (relation "measure (\<lambda>(lc, batchWords, punctuatedBatch, punctuatedWords, oi, pidx, matched).
      length batchWords - oi)")
   apply simp
  subgoal for lc batchWords punctuatedBatch punctuatedWords oi pidx matched
    using punct_step_oi[of oi batchWords lc punctuatedBatch punctuatedWords pidx matched]
    by (cases "punct_step lc batchWords punctuatedBatch (punctuatedWords, oi, pidx, matched)") auto
  done

declare punct_loop.simps [simp del]

text \<open>
  The loop over the batches, \<open>for (i = 0; i < transcript.words.length; i += BATCH_SIZE)\<close>,
  with \<open>batchWords = transcript.words.slice(i, i + BATCH_SIZE)\<close>. The correction service
  is outside the program: \<open>reply i\<close> is the text it returned for the batch that starts at
  \<open>i\<close>, split at white space, and \<open>None\<close> when the request or the reading of its
  reply throws, where the \<open>catch\<close> branch keeps the words of the batch.
\<close>

definition BATCH_SIZE :: nat where
  "BATCH_SIZE = 500"

function punct_batches ::
  "(jstring \<Rightarrow> jstring) \<Rightarrow> (nat \<Rightarrow> jstring list option) \<Rightarrow> 'a timed_word_scheme list \<Rightarrow>
   'a timed_word_scheme list \<Rightarrow> nat \<Rightarrow> 'a timed_word_scheme list" where
  "punct_batches lc reply words punctuatedWords i =
     (if i < length words then
        (let batchWords = take BATCH_SIZE (drop i words) in
         case reply i of
           Some punctuatedBatch \<Rightarrow>
             (let (punctuatedWords', oi, pidx, matched) =
                    punct_loop lc batchWords punctuatedBatch (punctuatedWords, 0, 0, 0)
              in punct_batches lc reply words punctuatedWords' (i + BATCH_SIZE))
         | None \<Rightarrow> punct_batches lc reply words (punctuatedWords @ batchWords) (i + BATCH_SIZE))
      else punctuatedWords)"
  by pat_completeness auto
termination
  by (relation "measure (\<lambda>(lc, reply, words, punctuatedWords, i). length words - i)")
     (auto simp: BATCH_SIZE_def)

declare punct_batches.simps [simp del]

text \<open>
  The words of the transcript that \<open>addPunctuation\<close> returns: the transcript itself when
  there is no API key or no word, the words of the batches otherwise.
\<close>

definition addPunctuation_words ::
  "(jstring \<Rightarrow> jstring) \<Rightarrow> bool \<Rightarrow> (nat \<Rightarrow> jstring list option) \<Rightarrow>
   'a timed_word_scheme list \<Rightarrow> 'a timed_word_scheme list" where
  "addPunctuation_words lc apiKey reply words =
     (if \<not> apiKey \<or> length words = 0 then words
      else punct_batches lc reply words [] 0)"

section \<open>Notions for the statements and the proofs\<close>

text \<open>
  The reference for \<open>editDistance\<close>: the Levenshtein distance by its defining recursion
  on the first characters.
\<close>

fun lev :: "'a list \<Rightarrow> 'a list \<Rightarrow> nat" where
  "lev [] ys = length ys"
| "lev xs [] = length xs"
| "lev (x # xs) (y # ys) =
     min (min (lev xs (y # ys) + 1) (lev (x # xs) ys + 1)) (lev xs ys + (if x = y then 0 else 1))"

text \<open>Row \<open>i\<close> of the dynamic-programming table: the distances from \<open>take i b\<close> to each prefix of \<open>a\<close>.\<close>

definition lev_row :: "jstring \<Rightarrow> jstring \<Rightarrow> nat \<Rightarrow> nat list" where
  "lev_row a b i = map (\<lambda>j. lev (take i b) (take j a)) [0..<Suc (length a)]"

text \<open>The text the i-th result carries: the i-th original word, after a space when \<open>i > 0\<close>.\<close>

definition spaced :: "jstring list \<Rightarrow> jstring list" where
  "spaced originalWords =
     map (\<lambda>(i, w). (if i > 0 then [0x20] else []) @ w) (enumerate 0 originalWords)"

text \<open>
  What the walk makes of the source word \<open>original\<close>: the word itself, or the word with its
  text replaced by a token of the corrected batch that matches it, after its own leading
  white space.
\<close>

definition outcome ::
  "(jstring \<Rightarrow> jstring) \<Rightarrow> jstring list \<Rightarrow> 'a timed_word_scheme \<Rightarrow> 'a timed_word_scheme \<Rightarrow> bool" where
  "outcome lc punctuatedBatch original r =
     (r = original \<or>
      (\<exists>p \<in> set punctuatedBatch.
         r = original\<lparr>word := leadingWhitespace (word original) @ p\<rparr> \<and>
         (base_form lc (word original) = base_form lc p \<or>
          isFuzzyMatch (base_form lc (word original)) (base_form lc p))))"

text \<open>
  A word waits for interpolation when its start is the sentinel \<open>-1\<close>; this is the test
  of the loop.
\<close>

definition gap :: "timed_word \<Rightarrow> bool" where
  "gap t = (start t = - 1)"

text \<open>The times the loop gives to a run of waiting words, the first at position \<open>pos + 1\<close>.\<close>

definition fill_from :: "real \<Rightarrow> real \<Rightarrow> nat \<Rightarrow> timed_word list \<Rightarrow> timed_word list" where
  "fill_from prevEnd step pos run =
     map (\<lambda>(k, t). t\<lparr>start := prevEnd + step * real (k + 1),
                        end_time := prevEnd + step * (real (k + 1) + 0.8)\<rparr>)
       (enumerate pos run)"

text \<open>The end of the last word already timed, or 0 when there is none.\<close>

definition prev_end :: "timed_word list \<Rightarrow> real" where
  "prev_end timed = (if timed = [] then 0 else end_time (last timed))"

text \<open>
  The result of the loop, described on the list: a timed word stays, and a maximal run of
  waiting words is filled between the end of the word before it and the start of the word
  after it (lemma \<open>interpolate_eq\<close>).
\<close>

function interpolated :: "real \<Rightarrow> real \<Rightarrow> timed_word list \<Rightarrow> timed_word list" where
  "interpolated totalDuration prevEnd [] = []"
| "interpolated totalDuration prevEnd (t # ts) =
     (if \<not> gap t then t # interpolated totalDuration (end_time t) ts
      else
        (let run = t # takeWhile gap ts;
             post = dropWhile gap ts;
             nextStart = (case post of [] \<Rightarrow> totalDuration | u # _ \<Rightarrow> start u);
             step = (nextStart - prevEnd) / real (length run + 1)
         in fill_from prevEnd step 0 run @ interpolated totalDuration prevEnd post))"
  by pat_completeness auto
termination
  by (relation "measure (\<lambda>(totalDuration, prevEnd, r). length r)")
     (auto simp: length_dropWhile_le le_imp_less_Suc)

declare interpolated.simps(2) [simp del]

text \<open>Every word is waiting with both times \<open>-1\<close>, or has two times that are not negative.\<close>

definition marked :: "timed_word list \<Rightarrow> bool" where
  "marked r = (\<forall>t \<in> set r. (start t = - 1 \<and> end_time t = - 1) \<or> (0 \<le> start t \<and> 0 \<le> end_time t))"

definition timed_all :: "timed_word list \<Rightarrow> bool" where
  "timed_all r = (\<forall>t \<in> set r. 0 \<le> start t \<and> 0 \<le> end_time t)"

text \<open>
  The timed words of a list follow each other from \<open>lo\<close> on, each with its start not
  after its end; \<open>last_end\<close> is the end of the last of them.
\<close>

fun chain :: "real \<Rightarrow> timed_word list \<Rightarrow> bool" where
  "chain lo [] = True"
| "chain lo (t # ts) =
     (if gap t then chain lo ts
      else lo \<le> start t \<and> start t \<le> end_time t \<and> chain (end_time t) ts)"

fun last_end :: "real \<Rightarrow> timed_word list \<Rightarrow> real" where
  "last_end lo [] = lo"
| "last_end lo (t # ts) = (if gap t then last_end lo ts else last_end (end_time t) ts)"

section \<open>Example words and transcripts\<close>

text \<open>
  The words are Cyrillic: "skazhym" (a misspelling) and "skazhem", "kot", "kod", "privet",
  "Privet", "kak", "dela", "mir"; \<open>ex_source\<close> and \<open>ex_target\<close> are a batch and its
  correction, \<open>ex3_whisper\<close> and \<open>ex3_original\<close> a synthesised reading and its script.
\<close>

definition w_skazhym :: jstring where
  "w_skazhym = [0x441, 0x43A, 0x430, 0x436, 0x44B, 0x43C]"

definition w_skazhem :: jstring where
  "w_skazhem = [0x441, 0x43A, 0x430, 0x436, 0x435, 0x43C]"

definition w_abcd :: jstring where
  "w_abcd = [0x61, 0x62, 0x63, 0x64]"

definition w_axyz :: jstring where
  "w_axyz = [0x61, 0x78, 0x79, 0x7A]"

definition w_kot :: jstring where
  "w_kot = [0x43A, 0x43E, 0x442]"

definition w_kod :: jstring where
  "w_kod = [0x43A, 0x43E, 0x434]"

definition w_privet :: jstring where
  "w_privet = [0x43F, 0x440, 0x438, 0x432, 0x435, 0x442]"

definition w_Privet :: jstring where
  "w_Privet = [0x41F, 0x440, 0x438, 0x432, 0x435, 0x442]"

definition w_kak :: jstring where
  "w_kak = [0x43A, 0x430, 0x43A]"

definition w_dela :: jstring where
  "w_dela = [0x434, 0x435, 0x43B, 0x430]"

definition w_mir :: jstring where
  "w_mir = [0x43C, 0x438, 0x440]"

definition ex_source :: "timed_word list" where
  "ex_source = [\<lparr>word = w_privet, start = 0, end_time = 1\<rparr>,
                \<lparr>word = w_kak, start = 1, end_time = 2\<rparr>,
                \<lparr>word = w_dela, start = 2, end_time = 3\<rparr>]"

definition ex_target :: "jstring list" where
  "ex_target = [w_Privet, [0x2C], w_kak, w_dela, [0x3F]]"

definition ex7_source :: "timed_word list" where
  "ex7_source = [\<lparr>word = 0x20 # w_privet, start = 0, end_time = 1\<rparr>]"

definition ex7_target :: "jstring list" where
  "ex7_target = [w_Privet @ [0x2C]]"

definition ex3_whisper :: "timed_word list" where
  "ex3_whisper = [\<lparr>word = w_privet, start = 9, end_time = 10\<rparr>,
                  \<lparr>word = w_dela, start = 13, end_time = 14\<rparr>]"

definition ex3_original :: "jstring list" where
  "ex3_original = [w_privet, w_kak, w_mir, w_dela]"

definition neg_whisper :: "real \<Rightarrow> real \<Rightarrow> timed_word list" where
  "neg_whisper s e = [\<lparr>word = w_dela, start = s, end_time = e\<rparr>]"

definition neg_original :: "jstring list" where
  "neg_original = [w_kak, w_dela]"

section \<open>The rolling rows compute the Levenshtein distance\<close>

lemma lev_Nil2: "lev xs [] = length xs"
  by (cases xs) auto

lemma lev_sym: "lev xs ys = lev ys xs"
  by (induction xs ys rule: lev.induct) (auto simp: lev_Nil2 min.commute min.left_commute)

lemma lev_refl: "lev xs xs = 0"
  by (induction xs) auto

lemma lev_single_snoc:
  "lev [x] (ys @ [y]) =
     min (min (length ys + 2) (lev [x] ys + 1)) (length ys + (if x = y then 0 else 1))"
  by (induction ys) auto

lemma lev_snoc_single:
  "lev (xs @ [x]) [y] =
     min (min (lev xs [y] + 1) (length xs + 2)) (length xs + (if x = y then 0 else 1))"
proof -
  have "lev (xs @ [x]) [y] = lev [y] (xs @ [x])" by (rule lev_sym)
  also have "\<dots> = min (min (length xs + 2) (lev [y] xs + 1)) (length xs + (if y = x then 0 else 1))"
    by (rule lev_single_snoc)
  also have "lev [y] xs = lev xs [y]" by (rule lev_sym)
  finally show ?thesis by (auto simp: min.commute)
qed

lemma min_nine:
  fixes P Q R S T U V W Z c d :: nat
  shows "min (min (min (min (P+1) (Q+1)) (R+c) + 1) (min (min (S+1) (T+1)) (U+c) + 1))
             (min (min (V+1) (W+1)) (Z+c) + d)
       = min (min (min (min (P+1) (S+1)) (V+d) + 1) (min (min (Q+1) (T+1)) (W+d) + 1))
             (min (min (R+1) (U+1)) (Z+d) + c)"
  apply (rule antisym)
   apply (simp_all only: min_add_distrib_left min.bounded_iff min_le_iff_disj)
   apply (simp_all add: add.commute add.left_commute)
  done

text \<open>The recursion at the heads gives the same recurrence at the last characters.\<close>

lemma lev_snoc:
  "lev (xs @ [x]) (ys @ [y]) =
     min (min (lev xs (ys @ [y]) + 1) (lev (xs @ [x]) ys + 1)) (lev xs ys + (if x = y then 0 else 1))"
proof (induction xs ys rule: lev.induct)
  case (1 ys)
  have "lev [x] (ys @ [y]) =
      min (min (Suc (length ys) + 1) (lev [x] ys + 1)) (length ys + (if x = y then 0 else 1))"
    using lev_single_snoc[of x ys y] by (simp only: Suc_eq_plus1 add.assoc one_add_one)
  then show ?case by (simp only: append_Nil lev.simps(1) length_append_singleton)
next
  case (2 v va)
  have "lev ((v # va) @ [x]) [y] =
      min (min (lev (v # va) [y] + 1) (Suc (length (v # va)) + 1))
          (length (v # va) + (if x = y then 0 else 1))"
    using lev_snoc_single[of "v # va" x y] by (simp only: Suc_eq_plus1 add.assoc one_add_one)
  then show ?case by (simp only: append_Nil lev_Nil2 length_append_singleton)
next
  case (3 a xs b ys)
  let ?c = "if x = y then 0 else (1::nat)"
  let ?d = "if a = b then 0 else (1::nat)"
  have e1: "lev (xs @ [x]) (b # ys @ [y]) =
      min (min (lev xs (b # ys @ [y]) + 1) (lev (xs @ [x]) (b # ys) + 1)) (lev xs (b # ys) + ?c)"
    using "3.IH"(1) by (simp only: append_Cons)
  have e2: "lev (a # xs @ [x]) (ys @ [y]) =
      min (min (lev (a # xs) (ys @ [y]) + 1) (lev (a # xs @ [x]) ys + 1)) (lev (a # xs) ys + ?c)"
    using "3.IH"(2) by (simp only: append_Cons)
  have e3: "lev (xs @ [x]) (ys @ [y]) =
      min (min (lev xs (ys @ [y]) + 1) (lev (xs @ [x]) ys + 1)) (lev xs ys + ?c)"
    using "3.IH"(3) by (simp only: append_Cons)
  have "lev ((a # xs) @ [x]) ((b # ys) @ [y]) =
     min (min (lev (xs @ [x]) (b # ys @ [y]) + 1) (lev (a # xs @ [x]) (ys @ [y]) + 1))
         (lev (xs @ [x]) (ys @ [y]) + ?d)" by (simp only: append_Cons lev.simps)
  also have "\<dots> =
     min (min (min (min (lev xs (b # ys @ [y]) + 1) (lev (xs @ [x]) (b # ys) + 1)) (lev xs (b # ys) + ?c) + 1)
              (min (min (lev (a # xs) (ys @ [y]) + 1) (lev (a # xs @ [x]) ys + 1)) (lev (a # xs) ys + ?c) + 1))
         (min (min (lev xs (ys @ [y]) + 1) (lev (xs @ [x]) ys + 1)) (lev xs ys + ?c) + ?d)"
    unfolding e1 e2 e3 ..
  also have "\<dots> =
     min (min (min (min (lev xs (b # ys @ [y]) + 1) (lev (a # xs) (ys @ [y]) + 1)) (lev xs (ys @ [y]) + ?d) + 1)
              (min (min (lev (xs @ [x]) (b # ys) + 1) (lev (a # xs @ [x]) ys + 1)) (lev (xs @ [x]) ys + ?d) + 1))
         (min (min (lev xs (b # ys) + 1) (lev (a # xs) ys + 1)) (lev xs ys + ?d) + ?c)"
    by (rule min_nine)
  also have "\<dots> =
     min (min (lev (a # xs) ((b # ys) @ [y]) + 1) (lev ((a # xs) @ [x]) (b # ys) + 1))
         (lev (a # xs) (b # ys) + ?c)"
    by (simp only: append_Cons lev.simps)
  finally show ?case .
qed

lemma length_lev_row: "length (lev_row a b i) = Suc (length a)"
  by (simp add: lev_row_def)

lemma nth_lev_row: "j \<le> length a \<Longrightarrow> lev_row a b i ! j = lev (take i b) (take j a)"
  unfolding lev_row_def by (simp del: upt_Suc)

lemma lev_row_0: "lev_row a b 0 = [0..<length a + 1]"
  by (rule nth_equalityI) (simp_all add: length_lev_row nth_lev_row del: upt_Suc)

lemma lev_take_step:
  assumes "i < length b" "j < length a"
  shows "lev (take (Suc i) b) (take (Suc j) a) =
     min (lev (take i b) (take (Suc j) a) + 1)
         (min (lev (take (Suc i) b) (take j a) + 1)
              (lev (take i b) (take j a) + (if a ! j = b ! i then 0 else 1)))"
proof -
  have "lev (take (Suc i) b) (take (Suc j) a) = lev (take i b @ [b ! i]) (take j a @ [a ! j])"
    using assms by (simp only: take_Suc_conv_app_nth)
  also have "\<dots> = min (min (lev (take i b) (take j a @ [a ! j]) + 1) (lev (take i b @ [b ! i]) (take j a) + 1))
      (lev (take i b) (take j a) + (if b ! i = a ! j then 0 else 1))"
    by (rule lev_snoc)
  also have "\<dots> = min (lev (take i b) (take (Suc j) a) + 1)
         (min (lev (take (Suc i) b) (take j a) + 1)
              (lev (take i b) (take j a) + (if a ! j = b ! i then 0 else 1)))"
    using assms by (simp only: take_Suc_conv_app_nth min.assoc eq_commute[of "b ! i" "a ! j"])
  finally show ?thesis .
qed

lemma inner_loop_row:
  assumes "i < length b" "length currRow = Suc (length a)" "1 \<le> j" "j \<le> Suc (length a)"
    and "\<forall>k<j. currRow ! k = lev (take (Suc i) b) (take k a)"
  shows "inner_loop a (b ! i) (lev_row a b i) currRow j = lev_row a b (Suc i)"
  using assms(2-)
proof (induction "Suc (length a) - j" arbitrary: j currRow)
  case 0
  then have j: "j = Suc (length a)" by simp
  have "inner_loop a (b ! i) (lev_row a b i) currRow j = currRow"
    using j by (subst inner_loop.simps) simp
  moreover have "currRow = lev_row a b (Suc i)"
  proof (rule nth_equalityI)
    show "length currRow = length (lev_row a b (Suc i))" using 0 by (simp add: length_lev_row)
  next
    fix k assume "k < length currRow"
    then have "k < j" using 0 j by simp
    then show "currRow ! k = lev_row a b (Suc i) ! k"
      using 0(5) j by (simp add: nth_lev_row)
  qed
  ultimately show ?case by simp
next
  case (Suc n)
  then have j: "j \<le> length a" "1 \<le> j" by simp_all
  obtain j' where j': "j = Suc j'" "j' < length a" using j by (cases j) auto
  let ?v = "min (lev_row a b i ! j + 1) (min (currRow ! (j - 1) + 1)
        (lev_row a b i ! (j - 1) + (if a ! (j - 1) = b ! i then 0 else 1)))"
  have v: "?v = lev (take (Suc i) b) (take j a)"
    using j' Suc.prems(4) lev_take_step[OF assms(1) j'(2)]
    by (simp add: nth_lev_row)
  have step: "inner_loop a (b ! i) (lev_row a b i) currRow j =
      inner_loop a (b ! i) (lev_row a b i) (currRow[j := ?v]) (j + 1)"
    using j by (subst inner_loop.simps) (simp add: Let_def)
  have "inner_loop a (b ! i) (lev_row a b i) (currRow[j := ?v]) (j + 1) = lev_row a b (Suc i)"
  proof (rule Suc.hyps(1))
    show "n = Suc (length a) - (j + 1)" using Suc.hyps(2) by simp
    show "length (currRow[j := ?v]) = Suc (length a)" using Suc.prems by simp
    show "1 \<le> j + 1" by simp
    show "j + 1 \<le> Suc (length a)" using j by simp
    show "\<forall>k<j + 1. currRow[j := ?v] ! k = lev (take (Suc i) b) (take k a)"
    proof (intro allI impI)
      fix k assume k: "k < j + 1"
      show "currRow[j := ?v] ! k = lev (take (Suc i) b) (take k a)"
      proof (cases "k = j")
        case True
        then show ?thesis using v Suc.prems(1) j by (simp del: One_nat_def)
      next
        case False
        then show ?thesis using k Suc.prems(4) by simp
      qed
    qed
  qed
  with step show ?case by simp
qed

lemma outer_loop_row:
  assumes "1 \<le> i" "i \<le> Suc (length b)" "length currRow = Suc (length a)"
  shows "outer_loop a b (lev_row a b (i - 1)) currRow i = lev_row a b (length b)"
  using assms
proof (induction "Suc (length b) - i" arbitrary: i currRow)
  case 0
  then have "i = Suc (length b)" by simp
  then show ?case by (subst outer_loop.simps) simp
next
  case (Suc n)
  then have i: "i \<le> length b" "1 \<le> i" by simp_all
  obtain i' where i': "i = Suc i'" "i' < length b" using i by (cases i) auto
  have row: "inner_loop a (b ! i') (lev_row a b i') (currRow[0 := i]) 1 = lev_row a b (Suc i')"
  proof (rule inner_loop_row[OF i'(2)])
    show "length (currRow[0 := i]) = Suc (length a)" using Suc.prems by simp
    show "\<forall>k<1. currRow[0 := i] ! k = lev (take (Suc i') b) (take k a)"
      using i' Suc.prems(3) by (simp add: lev_Nil2)
  qed simp_all
  have "outer_loop a b (lev_row a b (i - 1)) currRow i =
      outer_loop a b (lev_row a b (Suc i')) (lev_row a b i') (i + 1)"
    using i i' row by (subst outer_loop.simps) simp
  also have "\<dots> = lev_row a b (length b)"
    using Suc.hyps(1)[of "i + 1" "lev_row a b i'"] Suc.hyps(2) i i'
    by (simp add: length_lev_row)
  finally show ?case .
qed

lemma outer_loop_lev:
  assumes "length currRow = Suc (length a)"
  shows "outer_loop a b [0..<length a + 1] currRow 1 ! length a = lev b a"
proof -
  have "outer_loop a b (lev_row a b (1 - 1)) currRow 1 = lev_row a b (length b)"
    by (rule outer_loop_row) (use assms in simp_all)
  then show ?thesis by (simp add: lev_row_0 nth_lev_row del: upt_Suc)
qed

lemma rolling_rows_curr_irrelevant:
  "length currRow = Suc (length a) \<Longrightarrow>
   outer_loop a b [0..<length a + 1] currRow 1 ! length a = rolling_rows a b"
proof -
  assume len: "length currRow = Suc (length a)"
  have "outer_loop a b [0..<length a + 1] currRow 1 ! length a = lev b a"
    using len by (rule outer_loop_lev)
  moreover have "rolling_rows a b = lev b a"
    unfolding rolling_rows_def by (rule outer_loop_lev) simp
  ultimately show ?thesis by simp
qed

lemma rolling_rows_lev: "rolling_rows a b = lev b a"
  unfolding rolling_rows_def by (rule outer_loop_lev) simp

lemma editDistance_lev: "editDistance a b = lev a b"
proof -
  consider "a = []" | "a \<noteq> []" "b = []" | "a \<noteq> []" "b \<noteq> []" "length a > length b"
    | "a \<noteq> []" "b \<noteq> []" "\<not> length a > length b" by blast
  then show ?thesis
  proof cases
    case 1
    then show ?thesis by (simp add: editDistance_def)
  next
    case 2
    then show ?thesis by (simp add: editDistance_def lev_Nil2)
  next
    case 3
    then show ?thesis using rolling_rows_lev[of b a] by (simp add: editDistance_def)
  next
    case 4
    have "editDistance a b = rolling_rows a b" using 4 by (simp add: editDistance_def)
    also have "\<dots> = lev b a" by (rule rolling_rows_lev)
    also have "\<dots> = lev a b" by (rule lev_sym)
    finally show ?thesis .
  qed
qed

lemma editDistance_skazhym: "editDistance w_skazhym w_skazhem = 1"
  by code_simp

lemma editDistance_abcd: "editDistance w_abcd w_axyz = 3"
  by code_simp

section \<open>The fuzzy-match threshold\<close>

lemma floor_three_tenths: "\<lfloor>real n * 0.3\<rfloor> = int (n * 3 div 10)"
proof -
  have "real n * 0.3 = real (n * 3) / real 10" by simp
  then show ?thesis by (simp only: floor_divide_of_nat_eq)
qed

text \<open>
  C5. \<open>isFuzzyMatch a b\<close> is false when either string has fewer than 4 code units;
  otherwise it is true exactly when
  \<open>editDistance a b \<le> max 2 (floor (max (length a) (length b) * 0.3))\<close>. Two strings of
  length 6 at distance 1 match; two strings of length 4 at distance 3 do not.
\<close>

theorem isFuzzyMatch_threshold:
  "(length a < 4 \<or> length b < 4 \<longrightarrow> \<not> isFuzzyMatch a b) \<and>
   (4 \<le> length a \<and> 4 \<le> length b \<longrightarrow>
      isFuzzyMatch a b =
        (int (editDistance a b) \<le> max 2 \<lfloor>real (max (length a) (length b)) * 0.3\<rfloor>)) \<and>
   (length a = 6 \<and> length b = 6 \<and> editDistance a b = 1 \<longrightarrow> isFuzzyMatch a b) \<and>
   (length a = 4 \<and> length b = 4 \<and> editDistance a b = 3 \<longrightarrow> \<not> isFuzzyMatch a b)"
proof (intro conjI impI)
  assume "length a < 4 \<or> length b < 4"
  then show "\<not> isFuzzyMatch a b" by (auto simp: isFuzzyMatch_def)
next
  assume "4 \<le> length a \<and> 4 \<le> length b"
  then have "isFuzzyMatch a b = (editDistance a b \<le> max 2 (max (length a) (length b) * 3 div 10))"
    by (auto simp: isFuzzyMatch_def Let_def)
  also have "\<dots> = (int (editDistance a b) \<le> max 2 (int (max (length a) (length b) * 3 div 10)))"
    by linarith
  finally show "isFuzzyMatch a b =
      (int (editDistance a b) \<le> max 2 \<lfloor>real (max (length a) (length b)) * 0.3\<rfloor>)"
    by (simp only: floor_three_tenths)
next
  assume "length a = 6 \<and> length b = 6 \<and> editDistance a b = 1"
  then show "isFuzzyMatch a b" by (simp add: isFuzzyMatch_def)
next
  assume "length a = 4 \<and> length b = 4 \<and> editDistance a b = 3"
  then show "\<not> isFuzzyMatch a b" by (simp add: isFuzzyMatch_def)
qed

theorem isFuzzyMatch_threshold_witness:
  "length w_skazhym = 6 \<and> length w_skazhem = 6 \<and> editDistance w_skazhym w_skazhem = 1 \<and>
   isFuzzyMatch w_skazhym w_skazhem \<and>
   length w_abcd = 4 \<and> length w_axyz = 4 \<and> editDistance w_abcd w_axyz = 3 \<and>
   \<not> isFuzzyMatch w_abcd w_axyz \<and>
   length w_kot < 4 \<and> \<not> isFuzzyMatch w_kot w_kod"
proof -
  have l6: "length w_skazhym = 6" "length w_skazhem = 6"
    by (simp_all add: w_skazhym_def w_skazhem_def)
  have l4: "length w_abcd = 4" "length w_axyz = 4"
    by (simp_all add: w_abcd_def w_axyz_def)
  have l3: "length w_kot < 4" by (simp add: w_kot_def)
  from isFuzzyMatch_threshold[of w_skazhym w_skazhem] l6 editDistance_skazhym
  have m1: "isFuzzyMatch w_skazhym w_skazhem" by blast
  from isFuzzyMatch_threshold[of w_abcd w_axyz] l4 editDistance_abcd
  have m2: "\<not> isFuzzyMatch w_abcd w_axyz" by blast
  from isFuzzyMatch_threshold[of w_kot w_kod] l3
  have m3: "\<not> isFuzzyMatch w_kot w_kod" by blast
  from l6 l4 l3 m1 m2 m3 editDistance_skazhym editDistance_abcd show ?thesis by blast
qed

section \<open>The edit distance refines the Levenshtein distance\<close>

text \<open>
  C6. \<open>editDistance\<close>, with its two rolling rows and its swap of the arguments, is the
  Levenshtein distance \<open>lev\<close>; it is symmetric, zero on equal strings and the length of
  the other string on the empty string, and \<open>isFuzzyMatch\<close> is symmetric.
\<close>

theorem editDistance_levenshtein:
  "editDistance a b = lev a b \<and>
   editDistance a b = editDistance b a \<and>
   editDistance a a = 0 \<and>
   editDistance [] b = length b \<and>
   isFuzzyMatch a b = isFuzzyMatch b a"
proof -
  have sym: "editDistance a b = editDistance b a"
    by (simp only: editDistance_lev lev_sym[of a b])
  have "isFuzzyMatch a b = isFuzzyMatch b a"
    unfolding isFuzzyMatch_def sym by (simp add: max.commute disj_commute)
  with sym show ?thesis
    by (simp add: editDistance_lev lev_refl)
qed

section \<open>The words of the aligned result\<close>

lemma length_spaced: "length (spaced ws) = length ws"
  by (simp add: spaced_def)

lemma nth_spaced: "i < length ws \<Longrightarrow> spaced ws ! i = (if i > 0 then [0x20] else []) @ ws ! i"
  by (simp add: spaced_def nth_enumerate_eq)

lemma take_add_nth:
  "i + n \<le> length xs \<Longrightarrow> take (i + n) xs = take i xs @ map (\<lambda>k. xs ! (i + k)) [0..<n]"
proof (induction n)
  case 0
  then show ?case by simp
next
  case (Suc n)
  then have "take (i + Suc n) xs = take (i + n) xs @ [xs ! (i + n)]"
    by (simp add: take_Suc_conv_app_nth)
  with Suc show ?case by simp
qed

lemma align_step_words:
  assumes "oi < length originalWords"
    and "map word result = take oi (spaced originalWords)"
    and "align_step lc whisperWords originalWords (result, wi, oi) = (result', wi', oi')"
  shows "map word result' = take oi' (spaced originalWords)"
proof -
  have one: "take (Suc oi) (spaced originalWords) =
      take oi (spaced originalWords) @ [(if oi > 0 then [0x20] else []) @ originalWords ! oi]"
    using assms(1) by (simp add: take_Suc_conv_app_nth length_spaced nth_spaced)
  have many: "take (oi + la) (spaced originalWords) =
      take oi (spaced originalWords) @
      map (\<lambda>skip. (if oi + skip > 0 then [0x20] else []) @ originalWords ! (oi + skip)) [0..<la]"
    if "oi + la < length originalWords" for la
  proof -
    have "take (oi + la) (spaced originalWords) =
        take oi (spaced originalWords) @ map (\<lambda>k. spaced originalWords ! (oi + k)) [0..<la]"
      using that by (intro take_add_nth) (simp add: length_spaced)
    moreover have "map (\<lambda>k. spaced originalWords ! (oi + k)) [0..<la] =
        map (\<lambda>skip. (if oi + skip > 0 then [0x20] else []) @ originalWords ! (oi + skip)) [0..<la]"
      using that by (intro map_cong refl) (simp add: nth_spaced)
    ultimately show ?thesis by simp
  qed
  show ?thesis
  proof (cases "lookahead_original lc originalWords oi (base_form lc (word (whisperWords ! wi))) 1")
    case None
    with assms(2,3) one show ?thesis
      by (auto simp: align_step.simps Let_def split: if_splits option.splits)
  next
    case (Some la)
    from lookahead_original_bounds[OF Some] have "oi + la < length originalWords" by simp
    from many[OF this] Some assms(2,3) one show ?thesis
      by (auto simp: align_step.simps Let_def o_def split: if_splits option.splits)
  qed
qed

lemma align_loop_words:
  assumes "oi \<le> length originalWords"
    and "map word result = take oi (spaced originalWords)"
    and "align_loop lc whisperWords originalWords (result, wi, oi) = (result', wi', oi')"
  shows "map word result' = spaced originalWords \<and> oi' = length originalWords"
  using assms
proof (induction "length originalWords - oi" arbitrary: result wi oi rule: less_induct)
  case less
  show ?case
  proof (cases "oi < length originalWords")
    case True
    obtain r1 w1 o1 where st: "align_step lc whisperWords originalWords (result, wi, oi) = (r1, w1, o1)"
      by (cases "align_step lc whisperWords originalWords (result, wi, oi)") auto
    have lp: "align_loop lc whisperWords originalWords (r1, w1, o1) = (result', wi', oi')"
      using less.prems(3) True st by (subst (asm) align_loop.simps) simp
    have o1: "oi < o1" "o1 \<le> length originalWords" using align_step_oi[OF True st] by simp_all
    have w1: "map word r1 = take o1 (spaced originalWords)"
      using align_step_words[OF True less.prems(2) st] .
    have "length originalWords - o1 < length originalWords - oi" using o1 True by simp
    from less.hyps[OF this o1(2) w1 lp] show ?thesis .
  next
    case False
    then have "align_loop lc whisperWords originalWords (result, wi, oi) = (result, wi, oi)"
      by (subst align_loop.simps) simp
    with less.prems False show ?thesis by (simp add: length_spaced)
  qed
qed

lemma map_word_fill_gap: "map word (fill_gap prevEnd step result j pos) = map word result"
proof (induction prevEnd step result j pos rule: fill_gap.induct)
  case (1 prevEnd step result j pos)
  show ?case
  proof (cases "j < length result \<and> start (result ! j) = - 1")
    case True
    then show ?thesis using "1.IH" by (subst fill_gap.simps) (simp add: map_update list_update_same_conv)
  next
    case False
    then show ?thesis by (subst fill_gap.simps) auto
  qed
qed

lemma map_word_interpolate: "map word (interpolate totalDuration result i) = map word result"
proof (induction totalDuration result i rule: interpolate.induct)
  case (1 totalDuration result i)
  show ?case
  proof (cases "i < length result")
    case False
    then show ?thesis by (subst interpolate.simps) simp
  next
    case True
    show ?thesis
    proof (cases "start (result ! i) = - 1")
      case False
      with True "1.IH"(2) show ?thesis by (subst interpolate.simps) simp
    next
      case s: True
      obtain nextStart gapCount where fn: "find_nextStart totalDuration result (i + 1) 1 = (nextStart, gapCount)"
        by (cases "find_nextStart totalDuration result (i + 1) 1") auto
      from "1.IH"(1)[OF True s refl fn[symmetric] refl refl] True s fn show ?thesis
        by (subst interpolate.simps) (simp add: map_word_fill_gap Let_def)
    qed
  qed
qed

lemma map_word_alignWhisperToOriginal:
  "map word (alignWhisperToOriginal lc whisperWords originalWords) = spaced originalWords"
proof (cases "length whisperWords = 0 \<or> length originalWords = 0")
  case True
  then show ?thesis
    by (auto simp: alignWhisperToOriginal_def spaced_def o_def split_def)
next
  case False
  obtain r w o' where al: "align_loop lc whisperWords originalWords ([], 0, 0) = (r, w, o')"
    by (cases "align_loop lc whisperWords originalWords ([], 0, 0)") auto
  have "map word r = spaced originalWords"
    using align_loop_words[OF _ _ al] by simp
  with False al show ?thesis
    by (simp add: alignWhisperToOriginal_def map_word_interpolate)
qed

text \<open>
  C1. The result of \<open>alignWhisperToOriginal\<close> has one word per original word, and the
  i-th carries the text of the i-th original word, after a single space when \<open>i > 0\<close>.
\<close>

theorem alignWhisperToOriginal_words:
  "length (alignWhisperToOriginal lc whisperWords originalWords) = length originalWords \<and>
   (\<forall>i < length originalWords.
      word (alignWhisperToOriginal lc whisperWords originalWords ! i) =
        (if i > 0 then [0x20] else []) @ originalWords ! i)"
proof -
  let ?out = "alignWhisperToOriginal lc whisperWords originalWords"
  have m: "map word ?out = spaced originalWords" by (rule map_word_alignWhisperToOriginal)
  then have len: "length ?out = length originalWords"
    using length_spaced[of originalWords] length_map[of word ?out] by simp
  have "word (?out ! i) = (if i > 0 then [0x20] else []) @ originalWords ! i"
    if "i < length originalWords" for i
  proof -
    have "word (?out ! i) = map word ?out ! i" using that len by simp
    also have "\<dots> = spaced originalWords ! i" by (simp only: m)
    finally show ?thesis using that by (simp only: nth_spaced)
  qed
  with len show ?thesis by blast
qed

theorem alignWhisperToOriginal_words_witness:
  "length (alignWhisperToOriginal toLowerCase ex_source ex_target) = 5 \<and>
   word (alignWhisperToOriginal toLowerCase ex_source ex_target ! 0) = w_Privet \<and>
   word (alignWhisperToOriginal toLowerCase ex_source ex_target ! 4) = [0x20, 0x3F]"
  using alignWhisperToOriginal_words[of toLowerCase ex_source ex_target]
  by (simp add: ex_target_def)

section \<open>The walk of addPunctuation keeps one word per source word\<close>

lemma isFuzzyMatch_sym: "isFuzzyMatch a b = isFuzzyMatch b a"
proof -
  have "editDistance a b = editDistance b a"
    by (simp only: editDistance_lev lev_sym[of a b])
  then show ?thesis
    unfolding isFuzzyMatch_def by (simp add: max.commute disj_commute)
qed

lemma outcome_refl: "outcome lc punctuatedBatch original original"
  by (simp add: outcome_def)

lemma outcome_match:
  assumes "k < length punctuatedBatch"
    and "base_form lc (word original) = base_form lc (punctuatedBatch ! k) \<or>
         isFuzzyMatch (base_form lc (word original)) (base_form lc (punctuatedBatch ! k))"
  shows "outcome lc punctuatedBatch original
           (original\<lparr>word := leadingWhitespace (word original) @ punctuatedBatch ! k\<rparr>)"
  unfolding outcome_def using assms nth_mem[OF assms(1)] by blast

lemma punct_step_outcome:
  assumes "oi < length batchWords"
    and "list_all2 (outcome lc punctuatedBatch) (take oi batchWords) out"
    and "punct_step lc batchWords punctuatedBatch (init @ out, oi, pidx, matched) =
         (punctuatedWords', oi', pidx', matched')"
  shows "\<exists>out'. punctuatedWords' = init @ out' \<and>
           list_all2 (outcome lc punctuatedBatch) (take oi' batchWords) out'"
proof -
  let ?original = "batchWords ! oi"
  let ?R = "outcome lc punctuatedBatch"
  have one: "list_all2 ?R (take (Suc oi) batchWords) (out @ [r])" if "?R ?original r" for r
    using assms(1,2) that by (simp add: take_Suc_conv_app_nth list_all2_appendI)
  have many: "list_all2 ?R (take (oi + la) batchWords)
      (out @ map (\<lambda>skip. batchWords ! (oi + skip)) [0..<la])"
    if "oi + la < length batchWords" for la
  proof -
    have "take (oi + la) batchWords =
        take oi batchWords @ map (\<lambda>skip. batchWords ! (oi + skip)) [0..<la]"
      using that by (intro take_add_nth) simp
    moreover have "list_all2 ?R (map (\<lambda>skip. batchWords ! (oi + skip)) [0..<la])
        (map (\<lambda>skip. batchWords ! (oi + skip)) [0..<la])"
      by (rule list_all2_refl) (rule outcome_refl)
    ultimately show ?thesis using assms(2) by (simp add: list_all2_appendI)
  qed
  show ?thesis
  proof (cases "pidx < length punctuatedBatch")
    case False
    with assms(3) one[OF outcome_refl] show ?thesis
      by (auto simp: punct_step.simps Let_def)
  next
    case pl: True
    let ?punctBase = "base_form lc (punctuatedBatch ! pidx)"
    let ?origBase = "base_form lc (word ?original)"
    show ?thesis
    proof (cases "?origBase = ?punctBase \<or> isFuzzyMatch ?origBase ?punctBase")
      case True
      from one[OF outcome_match[OF pl True]] True pl assms(3) show ?thesis
        by (auto simp: punct_step.simps Let_def)
    next
      case nm: False
      show ?thesis
      proof (cases "lookahead_punctuated lc punctuatedBatch pidx ?origBase 1")
        case (Some la)
        from lookahead_punctuated_bounds[OF Some]
        have b: "pidx + la < length punctuatedBatch"
          and m: "?origBase = base_form lc (punctuatedBatch ! (pidx + la)) \<or>
                  isFuzzyMatch ?origBase (base_form lc (punctuatedBatch ! (pidx + la)))"
          using isFuzzyMatch_sym by auto
        from one[OF outcome_match[OF b m]] Some nm pl assms(3) show ?thesis
          by (auto simp: punct_step.simps Let_def)
      next
        case None
        show ?thesis
        proof (cases "lookahead_batch lc batchWords oi ?punctBase 1")
          case n2: None
          with None nm pl assms(3) one[OF outcome_refl] show ?thesis
            by (auto simp: punct_step.simps Let_def)
        next
          case (Some la)
          from lookahead_batch_bounds[OF Some] have "oi + la < length batchWords" by simp
          from many[OF this] Some None nm pl assms(3) show ?thesis
            by (auto simp: punct_step.simps Let_def)
        qed
      qed
    qed
  qed
qed

lemma punct_loop_outcome:
  assumes "oi \<le> length batchWords"
    and "list_all2 (outcome lc punctuatedBatch) (take oi batchWords) out"
    and "punct_loop lc batchWords punctuatedBatch (init @ out, oi, pidx, matched) =
         (punctuatedWords', oi', pidx', matched')"
  shows "\<exists>out'. punctuatedWords' = init @ out' \<and>
           list_all2 (outcome lc punctuatedBatch) batchWords out'"
  using assms
proof (induction "length batchWords - oi" arbitrary: out oi pidx matched rule: less_induct)
  case less
  show ?case
  proof (cases "oi < length batchWords")
    case True
    obtain p1 o1 i1 m1 where st:
      "punct_step lc batchWords punctuatedBatch (init @ out, oi, pidx, matched) = (p1, o1, i1, m1)"
      by (cases "punct_step lc batchWords punctuatedBatch (init @ out, oi, pidx, matched)") auto
    have lp: "punct_loop lc batchWords punctuatedBatch (p1, o1, i1, m1) =
        (punctuatedWords', oi', pidx', matched')"
      using less.prems(3) True st by (subst (asm) punct_loop.simps) simp
    have o1: "oi < o1" "o1 \<le> length batchWords" using punct_step_oi[OF True st] by simp_all
    obtain out1 where out1: "p1 = init @ out1"
      "list_all2 (outcome lc punctuatedBatch) (take o1 batchWords) out1"
      using punct_step_outcome[OF True less.prems(2) st] by blast
    have "length batchWords - o1 < length batchWords - oi" using o1 True by simp
    from less.hyps[OF this o1(2) out1(2) lp[unfolded out1(1)]] show ?thesis .
  next
    case False
    then have "punct_loop lc batchWords punctuatedBatch (init @ out, oi, pidx, matched) =
        (init @ out, oi, pidx, matched)"
      by (subst punct_loop.simps) simp
    with less.prems False show ?thesis by auto
  qed
qed

lemma length_punct_batches:
  "length (punct_batches lc reply words punctuatedWords i) =
     length punctuatedWords + (length words - i)"
proof (induction "length words - i" arbitrary: punctuatedWords i rule: less_induct)
  case less
  show ?case
  proof (cases "i < length words")
    case False
    then show ?thesis by (subst punct_batches.simps) simp
  next
    case True
    let ?batchWords = "take BATCH_SIZE (drop i words)"
    have lb: "length ?batchWords + (length words - (i + BATCH_SIZE)) = length words - i"
      using True by (simp add: min_def)
    have dec: "length words - (i + BATCH_SIZE) < length words - i"
      using True by (simp add: BATCH_SIZE_def)
    show ?thesis
    proof (cases "reply i")
      case None
      have "length (punct_batches lc reply words punctuatedWords i) =
          length (punct_batches lc reply words (punctuatedWords @ ?batchWords) (i + BATCH_SIZE))"
        using True None by (subst punct_batches.simps) (simp add: Let_def)
      also have "\<dots> = length (punctuatedWords @ ?batchWords) + (length words - (i + BATCH_SIZE))"
        by (rule less.hyps[OF dec])
      finally show ?thesis using lb by simp
    next
      case (Some punctuatedBatch)
      obtain p1 o1 i1 m1 where lp:
        "punct_loop lc ?batchWords punctuatedBatch (punctuatedWords, 0, 0, 0) = (p1, o1, i1, m1)"
        by (cases "punct_loop lc ?batchWords punctuatedBatch (punctuatedWords, 0, 0, 0)") auto
      obtain out where out: "p1 = punctuatedWords @ out"
        "list_all2 (outcome lc punctuatedBatch) ?batchWords out"
        using punct_loop_outcome[of 0 ?batchWords lc punctuatedBatch "[]" punctuatedWords 0 0 p1 o1 i1 m1] lp
        by auto
      have "length (punct_batches lc reply words punctuatedWords i) =
          length (punct_batches lc reply words p1 (i + BATCH_SIZE))"
        using True Some lp by (subst punct_batches.simps) (simp add: Let_def)
      also have "\<dots> = length p1 + (length words - (i + BATCH_SIZE))"
        by (rule less.hyps[OF dec])
      also have "length p1 = length punctuatedWords + length ?batchWords"
        using out list_all2_lengthD[OF out(2)] by simp
      finally show ?thesis using lb by simp
    qed
  qed
qed

text \<open>
  C2. The walk of one batch appends exactly one word per source word to
  \<open>punctuatedWords\<close>: the source word as it was, or the source word with its text
  replaced by a matching token of the corrected batch. So \<open>addPunctuation\<close> returns
  as many words as the transcript had.
\<close>

theorem addPunctuation_one_per_source:
  "(\<exists>out. fst (punct_loop lc batchWords punctuatedBatch (punctuatedWords, 0, 0, 0)) =
            punctuatedWords @ out \<and>
          length out = length batchWords \<and>
          (\<forall>i < length batchWords.
             out ! i = batchWords ! i \<or>
             (\<exists>p \<in> set punctuatedBatch.
                out ! i = (batchWords ! i)\<lparr>word := leadingWhitespace (word (batchWords ! i)) @ p\<rparr> \<and>
                (base_form lc (word (batchWords ! i)) = base_form lc p \<or>
                 isFuzzyMatch (base_form lc (word (batchWords ! i))) (base_form lc p))))) \<and>
   length (addPunctuation_words lc apiKey reply words) = length words"
proof
  obtain p1 o1 i1 m1 where lp:
    "punct_loop lc batchWords punctuatedBatch (punctuatedWords, 0, 0, 0) = (p1, o1, i1, m1)"
    by (cases "punct_loop lc batchWords punctuatedBatch (punctuatedWords, 0, 0, 0)") auto
  obtain out where out: "p1 = punctuatedWords @ out"
    "list_all2 (outcome lc punctuatedBatch) batchWords out"
    using punct_loop_outcome[of 0 batchWords lc punctuatedBatch "[]" punctuatedWords 0 0 p1 o1 i1 m1] lp
    by auto
  have len: "length out = length batchWords" using list_all2_lengthD[OF out(2)] by simp
  have "outcome lc punctuatedBatch (batchWords ! i) (out ! i)" if "i < length batchWords" for i
    using list_all2_nthD[OF out(2) that] .
  then have "\<forall>i < length batchWords.
      out ! i = batchWords ! i \<or>
      (\<exists>p \<in> set punctuatedBatch.
         out ! i = (batchWords ! i)\<lparr>word := leadingWhitespace (word (batchWords ! i)) @ p\<rparr> \<and>
         (base_form lc (word (batchWords ! i)) = base_form lc p \<or>
          isFuzzyMatch (base_form lc (word (batchWords ! i))) (base_form lc p)))"
    unfolding outcome_def by blast
  with out(1) len lp
  show "\<exists>out. fst (punct_loop lc batchWords punctuatedBatch (punctuatedWords, 0, 0, 0)) =
            punctuatedWords @ out \<and>
          length out = length batchWords \<and>
          (\<forall>i < length batchWords.
             out ! i = batchWords ! i \<or>
             (\<exists>p \<in> set punctuatedBatch.
                out ! i = (batchWords ! i)\<lparr>word := leadingWhitespace (word (batchWords ! i)) @ p\<rparr> \<and>
                (base_form lc (word (batchWords ! i)) = base_form lc p \<or>
                 isFuzzyMatch (base_form lc (word (batchWords ! i))) (base_form lc p))))"
    by (intro exI[of _ out]) simp
next
  show "length (addPunctuation_words lc apiKey reply words) = length words"
    by (simp add: addPunctuation_words_def length_punct_batches)
qed

theorem addPunctuation_one_per_source_witness:
  "length (fst (punct_loop toLowerCase ex_source ex_target ([], 0, 0, 0))) = 3 \<and>
   length (addPunctuation_words toLowerCase True (\<lambda>i. Some ex_target) ex_source) = 3"
  using addPunctuation_one_per_source[of toLowerCase ex_source ex_target "[]" True "\<lambda>i. Some ex_target" ex_source]
  by (auto simp: ex_source_def)

section \<open>A corrected batch that equals the source after normalisation\<close>

lemma stripPunctuation_leadingWhitespace:
  "stripPunctuation (leadingWhitespace w @ p) = stripPunctuation p"
proof -
  have "isEdgeChar x" if "x \<in> set (leadingWhitespace w)" for x
    using that set_takeWhileD[of x isWhiteSpace w] by (simp add: leadingWhitespace_def isEdgeChar_def)
  then have "dropWhile isEdgeChar (leadingWhitespace w @ p) = dropWhile isEdgeChar p"
    by (rule dropWhile_append2)
  then show ?thesis by (simp add: stripPunctuation_def)
qed

lemma punct_loop_identical:
  assumes "list_all2 (\<lambda>original p. base_form lc (word original) = base_form lc p)
             batchWords punctuatedBatch"
    and "oi \<le> length batchWords"
  shows "punct_loop lc batchWords punctuatedBatch (punctuatedWords, oi, oi, matched) =
     (punctuatedWords @
        map (\<lambda>(original, p). original\<lparr>word := leadingWhitespace (word original) @ p\<rparr>)
          (zip (drop oi batchWords) (drop oi punctuatedBatch)),
      length batchWords, length batchWords, matched + (length batchWords - oi))"
  using assms(2)
proof (induction "length batchWords - oi" arbitrary: punctuatedWords oi matched rule: less_induct)
  case less
  have len: "length punctuatedBatch = length batchWords"
    using list_all2_lengthD[OF assms(1)] by simp
  show ?case
  proof (cases "oi < length batchWords")
    case False
    with less.prems len show ?thesis by (subst punct_loop.simps) simp
  next
    case True
    have eq: "base_form lc (word (batchWords ! oi)) = base_form lc (punctuatedBatch ! oi)"
      using list_all2_nthD[OF assms(1) True] .
    have st: "punct_step lc batchWords punctuatedBatch (punctuatedWords, oi, oi, matched) =
        (punctuatedWords @
           [(batchWords ! oi)\<lparr>word := leadingWhitespace (word (batchWords ! oi)) @ punctuatedBatch ! oi\<rparr>],
         oi + 1, oi + 1, matched + 1)"
      using True len eq by (simp add: punct_step.simps Let_def)
    have dec: "length batchWords - (oi + 1) < length batchWords - oi" using True by simp
    have "punct_loop lc batchWords punctuatedBatch (punctuatedWords, oi, oi, matched) =
        punct_loop lc batchWords punctuatedBatch
          (punctuatedWords @
             [(batchWords ! oi)\<lparr>word := leadingWhitespace (word (batchWords ! oi)) @ punctuatedBatch ! oi\<rparr>],
           oi + 1, oi + 1, matched + 1)"
      using True st by (subst punct_loop.simps) simp
    also have "\<dots> =
        ((punctuatedWords @
           [(batchWords ! oi)\<lparr>word := leadingWhitespace (word (batchWords ! oi)) @ punctuatedBatch ! oi\<rparr>]) @
          map (\<lambda>(original, p). original\<lparr>word := leadingWhitespace (word original) @ p\<rparr>)
            (zip (drop (oi + 1) batchWords) (drop (oi + 1) punctuatedBatch)),
         length batchWords, length batchWords, matched + 1 + (length batchWords - (oi + 1)))"
      using True by (intro less.hyps[OF dec]) simp
    also have "\<dots> =
        (punctuatedWords @
          map (\<lambda>(original, p). original\<lparr>word := leadingWhitespace (word original) @ p\<rparr>)
            (zip (drop oi batchWords) (drop oi punctuatedBatch)),
         length batchWords, length batchWords, matched + (length batchWords - oi))"
      using True len
      by (simp add: Cons_nth_drop_Suc[symmetric, of oi batchWords]
          Cons_nth_drop_Suc[symmetric, of oi punctuatedBatch])
    finally show ?thesis .
  qed
qed

text \<open>
  C7, as the code has it. When the corrected tokens equal the source words after
  normalisation, in order and in number, every source word is matched, each output word
  keeps the times of its source word, and its text is the leading white space of the source
  word followed by the corrected token: equal to the source text after normalisation.
\<close>

theorem addPunctuation_identical_batch:
  assumes "list_all2 (\<lambda>original p. base_form lc (word original) = base_form lc p)
             batchWords punctuatedBatch"
  shows "punct_loop lc batchWords punctuatedBatch (punctuatedWords, 0, 0, 0) =
     (punctuatedWords @
        map (\<lambda>(original, p). original\<lparr>word := leadingWhitespace (word original) @ p\<rparr>)
          (zip batchWords punctuatedBatch),
      length batchWords, length batchWords, length batchWords) \<and>
     list_all2 (\<lambda>original r. start r = start original \<and> end_time r = end_time original \<and>
                  base_form lc (word r) = base_form lc (word original))
       batchWords
       (map (\<lambda>(original, p). original\<lparr>word := leadingWhitespace (word original) @ p\<rparr>)
          (zip batchWords punctuatedBatch))"
proof
  show "punct_loop lc batchWords punctuatedBatch (punctuatedWords, 0, 0, 0) =
     (punctuatedWords @
        map (\<lambda>(original, p). original\<lparr>word := leadingWhitespace (word original) @ p\<rparr>)
          (zip batchWords punctuatedBatch),
      length batchWords, length batchWords, length batchWords)"
    using punct_loop_identical[OF assms, of 0 punctuatedWords 0] by simp
next
  have len: "length punctuatedBatch = length batchWords"
    using list_all2_lengthD[OF assms] by simp
  show "list_all2 (\<lambda>original r. start r = start original \<and> end_time r = end_time original \<and>
                  base_form lc (word r) = base_form lc (word original))
       batchWords
       (map (\<lambda>(original, p). original\<lparr>word := leadingWhitespace (word original) @ p\<rparr>)
          (zip batchWords punctuatedBatch))"
  proof (rule list_all2_all_nthI)
    show "length batchWords = length (map (\<lambda>(original, p). original\<lparr>word := leadingWhitespace (word original) @ p\<rparr>)
          (zip batchWords punctuatedBatch))" using len by simp
  next
    fix n assume n: "n < length batchWords"
    have "base_form lc (word (batchWords ! n)) = base_form lc (punctuatedBatch ! n)"
      using list_all2_nthD[OF assms n] .
    then show "start (map (\<lambda>(original, p). original\<lparr>word := leadingWhitespace (word original) @ p\<rparr>)
          (zip batchWords punctuatedBatch) ! n) = start (batchWords ! n) \<and>
       end_time (map (\<lambda>(original, p). original\<lparr>word := leadingWhitespace (word original) @ p\<rparr>)
          (zip batchWords punctuatedBatch) ! n) = end_time (batchWords ! n) \<and>
       base_form lc (word (map (\<lambda>(original, p). original\<lparr>word := leadingWhitespace (word original) @ p\<rparr>)
          (zip batchWords punctuatedBatch) ! n)) = base_form lc (word (batchWords ! n))"
      using n len by (simp add: base_form_def stripPunctuation_leadingWhitespace)
  qed
qed

lemma ex7_equal_after_normalisation:
  "list_all2 (\<lambda>original p. base_form toLowerCase (word original) = base_form toLowerCase p)
     ex7_source ex7_target"
  by code_simp

theorem addPunctuation_identical_batch_witness:
  "list_all2 (\<lambda>original p. base_form toLowerCase (word original) = base_form toLowerCase p)
     ex7_source ex7_target \<and>
   punct_loop toLowerCase ex7_source ex7_target ([], 0, 0, 0) =
     ([\<lparr>word = 0x20 # w_Privet @ [0x2C], start = 0, end_time = 1\<rparr>], 1, 1, 1)"
proof -
  have "leadingWhitespace (0x20 # w_privet) = [0x20]"
    by (simp add: leadingWhitespace_def w_privet_def isWhiteSpace_def)
  with addPunctuation_identical_batch[OF ex7_equal_after_normalisation, of "[]"]
    ex7_equal_after_normalisation
  show ?thesis by (simp add: ex7_source_def ex7_target_def)
qed

theorem addPunctuation_identical_batch_counterexample:
  "list_all2 (\<lambda>original p. base_form toLowerCase (word original) = base_form toLowerCase p)
     ex7_source ex7_target \<and>
   map word (fst (punct_loop toLowerCase ex7_source ex7_target ([], 0, 0, 0))) \<noteq>
     map word ex7_source"
  by code_simp

section \<open>Lookahead recovery in addPunctuation\<close>

text \<open>
  C8, as the code has it. For the source words "privet", "kak", "dela" (in Cyrillic) with
  the times 0-1, 1-2, 2-3 and the corrected tokens "Privet", ",", "kak", "dela", "?", the walk
  emits exactly three words with the source times and the texts "Privet", "kak", "dela";
  the comma token is skipped by the lookahead and the question mark is never reached
  (\<open>pidx\<close> ends at 4), so neither is emitted nor attached to a word.
\<close>

theorem addPunctuation_lookahead_example:
  "punct_loop toLowerCase ex_source ex_target ([], 0, 0, 0) =
     ([\<lparr>word = w_Privet, start = 0, end_time = 1\<rparr>,
       \<lparr>word = w_kak, start = 1, end_time = 2\<rparr>,
       \<lparr>word = w_dela, start = 2, end_time = 3\<rparr>], 3, 4, 3)"
  by code_simp

theorem addPunctuation_lookahead_counterexample:
  "0x2C \<notin> set (concat (map word (fst (punct_loop toLowerCase ex_source ex_target ([], 0, 0, 0))))) \<and>
   0x3F \<notin> set (concat (map word (fst (punct_loop toLowerCase ex_source ex_target ([], 0, 0, 0)))))"
  by code_simp

section \<open>The empty whisper list\<close>

text \<open>
  C9, as the code has it. With no whisper word, every original word is returned with
  start 0 and end 0, its text after a single space for every word but the first; the
  result has the fields \<open>word\<close>, \<open>start\<close> and \<open>end\<close> only. For the original words "privet",
  "mir" the result is "privet" and " mir", both at 0-0.
\<close>

theorem alignWhisperToOriginal_empty_whisper:
  "alignWhisperToOriginal lc [] originalWords =
     map (\<lambda>(i, w). \<lparr>word = (if i > 0 then [0x20] else []) @ w, start = 0, end_time = 0\<rparr>)
       (enumerate 0 originalWords) \<and>
   alignWhisperToOriginal lc [] [w_privet, w_mir] =
     [\<lparr>word = w_privet, start = 0, end_time = 0\<rparr>,
      \<lparr>word = 0x20 # w_mir, start = 0, end_time = 0\<rparr>]"
  by (simp add: alignWhisperToOriginal_def enumerate_eq_zip)

theorem alignWhisperToOriginal_empty_whisper_counterexample:
  "alignWhisperToOriginal toLowerCase [] [w_privet, w_mir] \<noteq>
     [\<lparr>word = w_privet, start = 0, end_time = 0\<rparr>,
      \<lparr>word = w_mir, start = 0, end_time = 0\<rparr>]"
  by (simp add: alignWhisperToOriginal_def enumerate_eq_zip w_mir_def)

section \<open>Termination of the two walks\<close>

lemma align_while:
  "while_option (\<lambda>(result, wi, oi). oi < length originalWords)
     (align_step lc whisperWords originalWords) (result, wi, oi) =
   Some (align_loop lc whisperWords originalWords (result, wi, oi))"
proof (induction "length originalWords - oi" arbitrary: result wi oi rule: less_induct)
  case less
  show ?case
  proof (cases "oi < length originalWords")
    case False
    then show ?thesis
      by (subst while_option_unfold, subst align_loop.simps) simp
  next
    case True
    obtain r1 w1 o1 where st: "align_step lc whisperWords originalWords (result, wi, oi) = (r1, w1, o1)"
      by (cases "align_step lc whisperWords originalWords (result, wi, oi)") auto
    have "length originalWords - o1 < length originalWords - oi"
      using align_step_oi[OF True st] True by linarith
    from less.hyps[OF this, of r1 w1] True st show ?thesis
      by (subst while_option_unfold, subst align_loop.simps) simp
  qed
qed

lemma punct_while:
  "while_option (\<lambda>(punctuatedWords, oi, pidx, matched). oi < length batchWords)
     (punct_step lc batchWords punctuatedBatch) (punctuatedWords, oi, pidx, matched) =
   Some (punct_loop lc batchWords punctuatedBatch (punctuatedWords, oi, pidx, matched))"
proof (induction "length batchWords - oi" arbitrary: punctuatedWords oi pidx matched rule: less_induct)
  case less
  show ?case
  proof (cases "oi < length batchWords")
    case False
    then show ?thesis
      by (subst while_option_unfold, subst punct_loop.simps) simp
  next
    case True
    obtain p1 o1 i1 m1 where st:
      "punct_step lc batchWords punctuatedBatch (punctuatedWords, oi, pidx, matched) = (p1, o1, i1, m1)"
      by (cases "punct_step lc batchWords punctuatedBatch (punctuatedWords, oi, pidx, matched)") auto
    have "length batchWords - o1 < length batchWords - oi"
      using punct_step_oi[OF True st] True by linarith
    from less.hyps[OF this, of p1 i1 m1] True st show ?thesis
      by (subst while_option_unfold, subst punct_loop.simps) simp
  qed
qed

text \<open>
  C10. Each iteration of either walk moves \<open>oi\<close> forward by at least one and not past the
  end of the authoritative list, whatever the other index does; so each \<open>while\<close> loop
  returns, with the value of the recursive function that models it.
\<close>

theorem walks_terminate:
  "(oi < length originalWords \<longrightarrow>
      oi < snd (snd (align_step lc whisperWords originalWords (result, wi, oi))) \<and>
      snd (snd (align_step lc whisperWords originalWords (result, wi, oi))) \<le> length originalWords) \<and>
   (oi < length batchWords \<longrightarrow>
      oi < fst (snd (punct_step lc batchWords punctuatedBatch (punctuatedWords, oi, pidx, matched))) \<and>
      fst (snd (punct_step lc batchWords punctuatedBatch (punctuatedWords, oi, pidx, matched)))
        \<le> length batchWords) \<and>
   while_option (\<lambda>(result, wi, oi). oi < length originalWords)
     (align_step lc whisperWords originalWords) (result, wi, oi) =
     Some (align_loop lc whisperWords originalWords (result, wi, oi)) \<and>
   while_option (\<lambda>(punctuatedWords, oi, pidx, matched). oi < length batchWords)
     (punct_step lc batchWords punctuatedBatch) (punctuatedWords, oi, pidx, matched) =
     Some (punct_loop lc batchWords punctuatedBatch (punctuatedWords, oi, pidx, matched))"
proof (intro conjI impI)
  assume lt: "oi < length originalWords"
  obtain r1 w1 o1 where st: "align_step lc whisperWords originalWords (result, wi, oi) = (r1, w1, o1)"
    by (cases "align_step lc whisperWords originalWords (result, wi, oi)") auto
  from align_step_oi[OF lt st] st
  show "oi < snd (snd (align_step lc whisperWords originalWords (result, wi, oi)))"
    and "snd (snd (align_step lc whisperWords originalWords (result, wi, oi))) \<le> length originalWords"
    by simp_all
next
  assume lt: "oi < length batchWords"
  obtain p1 o1 i1 m1 where st:
    "punct_step lc batchWords punctuatedBatch (punctuatedWords, oi, pidx, matched) = (p1, o1, i1, m1)"
    by (cases "punct_step lc batchWords punctuatedBatch (punctuatedWords, oi, pidx, matched)") auto
  from punct_step_oi[OF lt st] st
  show "oi < fst (snd (punct_step lc batchWords punctuatedBatch (punctuatedWords, oi, pidx, matched)))"
    and "fst (snd (punct_step lc batchWords punctuatedBatch (punctuatedWords, oi, pidx, matched)))
        \<le> length batchWords"
    by simp_all
qed (rule align_while punct_while)+

theorem walks_terminate_witness:
  "1 < length ex_target \<and>
   1 < snd (snd (align_step toLowerCase ex_source ex_target ([], 0, 1))) \<and>
   1 < length ex_source \<and>
   1 < fst (snd (punct_step toLowerCase ex_source ex_target ([], 1, 1, 1)))"
proof -
  have a: "1 < length ex_target" by (simp add: ex_target_def)
  have b: "1 < length ex_source" by (simp add: ex_source_def)
  from walks_terminate[of 1 ex_target toLowerCase ex_source "[]" 0 ex_source ex_target "[]" 1 1] a b
  show ?thesis by blast
qed

section \<open>The interpolation loop, run by run\<close>

lemma length_fill_from: "length (fill_from prevEnd step pos run) = length run"
  by (simp add: fill_from_def)

lemma nth_fill_from:
  "p < length run \<Longrightarrow>
   fill_from prevEnd step pos run ! p =
     (run ! p)\<lparr>start := prevEnd + step * real (pos + p + 1),
                end_time := prevEnd + step * (real (pos + p + 1) + 0.8)\<rparr>"
  by (simp add: fill_from_def nth_enumerate_eq)

lemma fill_from_Cons:
  "fill_from prevEnd step pos (t # run) =
     t\<lparr>start := prevEnd + step * real (pos + 1),
        end_time := prevEnd + step * (real (pos + 1) + 0.8)\<rparr> # fill_from prevEnd step (Suc pos) run"
  by (simp add: fill_from_def)

lemma fill_gap_run:
  assumes "\<forall>t \<in> set run. gap t" and "post = [] \<or> \<not> gap (hd post)"
  shows "fill_gap prevEnd step (pre @ run @ post) (length pre) pos =
         pre @ fill_from prevEnd step pos run @ post"
  using assms(1)
proof (induction run arbitrary: pre pos)
  case Nil
  have "\<not> (length pre < length (pre @ post) \<and> start ((pre @ post) ! length pre) = - 1)"
    using assms(2) by (cases post) (auto simp: gap_def nth_append)
  then show ?case by (subst fill_gap.simps) (auto simp: fill_from_def)
next
  case (Cons t run)
  let ?t' = "t\<lparr>start := prevEnd + step * real (pos + 1),
                 end_time := prevEnd + step * (real (pos + 1) + 0.8)\<rparr>"
  have g: "start t = - 1" using Cons.prems by (simp add: gap_def)
  have "fill_gap prevEnd step (pre @ (t # run) @ post) (length pre) pos =
      fill_gap prevEnd step ((pre @ [?t']) @ run @ post) (length (pre @ [?t'])) (pos + 1)"
    using g by (subst fill_gap.simps) (simp add: nth_append)
  also have "\<dots> = (pre @ [?t']) @ fill_from prevEnd step (pos + 1) run @ post"
    using Cons.prems by (intro Cons.IH) simp
  finally show ?case by (simp add: fill_from_Cons)
qed

lemma find_nextStart_run:
  assumes "\<forall>t \<in> set run. gap t" and "post = [] \<or> \<not> gap (hd post)"
  shows "find_nextStart totalDuration (pre @ run @ post) (length pre) gapCount =
         ((case post of [] \<Rightarrow> totalDuration | u # _ \<Rightarrow> start u), gapCount + length run)"
  using assms(1)
proof (induction run arbitrary: pre gapCount)
  case Nil
  show ?case
  proof (cases post)
    case Nil
    then show ?thesis by (subst find_nextStart.simps) simp
  next
    case (Cons u us)
    with assms(2) show ?thesis
      by (subst find_nextStart.simps) (simp add: gap_def nth_append)
  qed
next
  case (Cons t run)
  have g: "start t = - 1" using Cons.prems by (simp add: gap_def)
  have "find_nextStart totalDuration (pre @ (t # run) @ post) (length pre) gapCount =
      find_nextStart totalDuration ((pre @ [t]) @ run @ post) (length (pre @ [t])) (gapCount + 1)"
    using g by (subst find_nextStart.simps) (simp add: nth_append)
  also have "\<dots> = ((case post of [] \<Rightarrow> totalDuration | u # _ \<Rightarrow> start u), gapCount + 1 + length run)"
    using Cons.prems by (intro Cons.IH) simp
  finally show ?case by simp
qed

lemma find_prevEnd_timed:
  assumes "timed = [] \<or> end_time (last timed) \<noteq> - 1"
  shows "find_prevEnd (timed @ rest) (length timed) = prev_end timed"
proof (cases timed rule: rev_cases)
  case Nil
  then show ?thesis by (simp add: prev_end_def)
next
  case (snoc ts t)
  with assms show ?thesis by (simp add: prev_end_def nth_append)
qed

lemma interpolate_skip:
  assumes "\<forall>t \<in> set mid. \<not> gap t"
  shows "interpolate totalDuration (pre @ mid @ post) (length pre) =
         interpolate totalDuration (pre @ mid @ post) (length pre + length mid)"
  using assms
proof (induction mid arbitrary: pre)
  case Nil
  then show ?case by simp
next
  case (Cons t mid)
  have "interpolate totalDuration (pre @ (t # mid) @ post) (length pre) =
      interpolate totalDuration ((pre @ [t]) @ mid @ post) (length (pre @ [t]))"
    using Cons.prems by (subst interpolate.simps) (simp add: gap_def nth_append)
  also have "\<dots> = interpolate totalDuration ((pre @ [t]) @ mid @ post) (length (pre @ [t]) + length mid)"
    using Cons.prems by (intro Cons.IH) simp
  finally show ?case by simp
qed

lemma interpolate_run:
  assumes "timed = [] \<or> end_time (last timed) \<noteq> - 1"
    and "gap t" and "\<forall>u \<in> set run. gap u" and "post = [] \<or> \<not> gap (hd post)"
    and "nextStart = (case post of [] \<Rightarrow> totalDuration | u # _ \<Rightarrow> start u)"
    and "step = (nextStart - prev_end timed) / real (length (t # run) + 1)"
    and "\<forall>u \<in> set (fill_from (prev_end timed) step 0 (t # run)). \<not> gap u"
  shows "interpolate totalDuration (timed @ (t # run) @ post) (length timed) =
         interpolate totalDuration (timed @ fill_from (prev_end timed) step 0 (t # run) @ post)
           (length timed + length (t # run))"
proof -
  let ?result = "timed @ (t # run) @ post"
  have pe: "find_prevEnd ?result (length timed) = prev_end timed"
    using assms(1) by (rule find_prevEnd_timed)
  have "find_nextStart totalDuration ((timed @ [t]) @ run @ post) (length (timed @ [t])) 1 =
      (nextStart, 1 + length run)"
    unfolding assms(5) using assms(3,4) by (rule find_nextStart_run)
  then have ns: "find_nextStart totalDuration ?result (length timed + 1) 1 = (nextStart, length (t # run))"
    by simp
  have fg: "fill_gap (prev_end timed) step ?result (length timed) 0 =
      timed @ fill_from (prev_end timed) step 0 (t # run) @ post"
    using assms(2,3,4) by (intro fill_gap_run) auto
  have "interpolate totalDuration ?result (length timed) =
      interpolate totalDuration (timed @ fill_from (prev_end timed) step 0 (t # run) @ post)
        (length timed + 1)"
    using assms(2) pe ns fg assms(6)
    by (subst interpolate.simps) (simp add: gap_def nth_append Let_def)
  also have "\<dots> = interpolate totalDuration
      ((timed @ [hd (fill_from (prev_end timed) step 0 (t # run))]) @
        tl (fill_from (prev_end timed) step 0 (t # run)) @ post)
      (length (timed @ [hd (fill_from (prev_end timed) step 0 (t # run))]))"
    by (simp add: fill_from_Cons)
  also have "\<dots> = interpolate totalDuration
      ((timed @ [hd (fill_from (prev_end timed) step 0 (t # run))]) @
        tl (fill_from (prev_end timed) step 0 (t # run)) @ post)
      (length (timed @ [hd (fill_from (prev_end timed) step 0 (t # run))]) +
       length (tl (fill_from (prev_end timed) step 0 (t # run))))"
    using assms(7) by (intro interpolate_skip) (simp add: fill_from_Cons)
  finally show ?thesis by (simp add: fill_from_Cons length_fill_from)
qed

lemma between_nonneg:
  fixes a b c :: real
  assumes "0 \<le> a" "0 \<le> b" "0 \<le> c" "c \<le> 1"
  shows "0 \<le> a + (b - a) * c"
proof -
  have "a + (b - a) * c = a * (1 - c) + b * c" by (simp add: algebra_simps)
  moreover have "0 \<le> a * (1 - c)" using assms by simp
  moreover have "0 \<le> b * c" using assms by simp
  ultimately show ?thesis by simp
qed

lemma fill_nonneg:
  fixes prevEnd nextStart :: real
  assumes "0 \<le> prevEnd" "0 \<le> nextStart" "k < g"
  shows "0 \<le> prevEnd + (nextStart - prevEnd) / real (g + 1) * real (k + 1)"
    and "0 \<le> prevEnd + (nextStart - prevEnd) / real (g + 1) * (real (k + 1) + 0.8)"
proof -
  have c1: "0 \<le> real (k + 1) / real (g + 1)" "real (k + 1) / real (g + 1) \<le> 1"
    using assms(3) by simp_all
  have c2: "0 \<le> (real (k + 1) + 0.8) / real (g + 1)" "(real (k + 1) + 0.8) / real (g + 1) \<le> 1"
    using assms(3) by simp_all
  have "0 \<le> prevEnd + (nextStart - prevEnd) * (real (k + 1) / real (g + 1))"
    using assms(1,2) c1 by (rule between_nonneg)
  then show "0 \<le> prevEnd + (nextStart - prevEnd) / real (g + 1) * real (k + 1)" by simp
  have "0 \<le> prevEnd + (nextStart - prevEnd) * ((real (k + 1) + 0.8) / real (g + 1))"
    using assms(1,2) c2 by (rule between_nonneg)
  then show "0 \<le> prevEnd + (nextStart - prevEnd) / real (g + 1) * (real (k + 1) + 0.8)" by simp
qed

lemma timed_all_fill_from:
  assumes "0 \<le> prevEnd" "0 \<le> nextStart"
  shows "timed_all (fill_from prevEnd ((nextStart - prevEnd) / real (length run + 1)) 0 run)"
proof -
  have "0 \<le> start (fill_from prevEnd ((nextStart - prevEnd) / real (length run + 1)) 0 run ! p) \<and>
        0 \<le> end_time (fill_from prevEnd ((nextStart - prevEnd) / real (length run + 1)) 0 run ! p)"
    if "p < length run" for p
    using that fill_nonneg[OF assms that] by (simp add: nth_fill_from)
  then show ?thesis
    unfolding timed_all_def by (metis in_set_conv_nth length_fill_from)
qed

lemma timed_all_not_gap: "timed_all r \<Longrightarrow> t \<in> set r \<Longrightarrow> \<not> gap t"
  by (fastforce simp: timed_all_def gap_def)

lemma timed_all_append: "timed_all (a @ b) = (timed_all a \<and> timed_all b)"
  by (auto simp: timed_all_def)

lemma prev_end_timed_all: "timed_all r \<Longrightarrow> 0 \<le> prev_end r"
  by (auto simp: prev_end_def timed_all_def)

lemma marked_Cons: "marked (t # ts) \<Longrightarrow> marked ts"
  by (simp add: marked_def)

lemma marked_dropWhile: "marked ts \<Longrightarrow> marked (dropWhile P ts)"
  unfolding marked_def using set_dropWhileD by fast

lemma marked_not_gap: "marked r \<Longrightarrow> t \<in> set r \<Longrightarrow> \<not> gap t \<Longrightarrow> 0 \<le> start t \<and> 0 \<le> end_time t"
  by (auto simp: marked_def gap_def)

lemma next_start_nonneg:
  assumes "marked post" "0 \<le> totalDuration" "post = [] \<or> \<not> gap (hd post)"
  shows "0 \<le> (case post of [] \<Rightarrow> totalDuration | u # _ \<Rightarrow> start u)"
  using assms by (cases post) (auto dest: marked_not_gap)

lemma dropWhile_head: "dropWhile P xs = [] \<or> \<not> P (hd (dropWhile P xs))"
  using hd_dropWhile by blast

lemma interpolated_prevEnd_irrelevant:
  "r = [] \<or> \<not> gap (hd r) \<Longrightarrow> interpolated totalDuration a r = interpolated totalDuration b r"
  by (cases r) (auto simp: interpolated.simps(2))

lemma interpolate_eq:
  assumes "0 \<le> totalDuration"
  shows "timed_all timed \<Longrightarrow> marked r \<Longrightarrow>
         interpolate totalDuration (timed @ r) (length timed) =
         timed @ interpolated totalDuration (prev_end timed) r"
proof (induction "length r" arbitrary: timed r rule: less_induct)
  case less
  show ?case
  proof (cases r)
    case Nil
    then show ?thesis by (subst interpolate.simps) simp
  next
    case (Cons t ts)
    show ?thesis
    proof (cases "gap t")
      case False
      then have nn: "0 \<le> start t \<and> 0 \<le> end_time t"
        using marked_not_gap[OF less.prems(2)] Cons by simp
      have ta: "timed_all (timed @ [t])"
        using less.prems(1) nn by (simp add: timed_all_def)
      have "interpolate totalDuration (timed @ r) (length timed) =
          interpolate totalDuration ((timed @ [t]) @ ts) (length (timed @ [t]))"
        using False Cons by (subst interpolate.simps) (simp add: gap_def nth_append)
      also have "\<dots> = (timed @ [t]) @ interpolated totalDuration (prev_end (timed @ [t])) ts"
        using Cons marked_Cons less.prems(2) by (intro less.hyps ta) auto
      finally show ?thesis using False Cons
        by (simp add: interpolated.simps(2) prev_end_def)
    next
      case True
      let ?run = "t # takeWhile gap ts"
      let ?post = "dropWhile gap ts"
      let ?nextStart = "case ?post of [] \<Rightarrow> totalDuration | u # _ \<Rightarrow> start u"
      let ?step = "(?nextStart - prev_end timed) / real (length ?run + 1)"
      let ?filled = "fill_from (prev_end timed) ?step 0 ?run"
      have r: "r = ?run @ ?post" using Cons by simp
      have hp: "?post = [] \<or> \<not> gap (hd ?post)" by (rule dropWhile_head)
      have mp: "marked ?post"
        using less.prems(2) Cons marked_Cons marked_dropWhile by blast
      have pe: "0 \<le> prev_end timed" using less.prems(1) by (rule prev_end_timed_all)
      have ns: "0 \<le> ?nextStart" using mp assms hp by (rule next_start_nonneg)
      have tf: "timed_all ?filled" using pe ns by (rule timed_all_fill_from)
      have last_ok: "timed = [] \<or> end_time (last timed) \<noteq> - 1"
        using less.prems(1) by (cases timed rule: rev_cases) (auto simp: timed_all_def)
      have "interpolate totalDuration (timed @ ?run @ ?post) (length timed) =
          interpolate totalDuration (timed @ ?filled @ ?post) (length timed + length ?run)"
      proof (rule interpolate_run[OF last_ok True _ hp refl refl])
        show "\<forall>u \<in> set (takeWhile gap ts). gap u" using set_takeWhileD by fast
        show "\<forall>u \<in> set ?filled. \<not> gap u" using tf timed_all_not_gap by blast
      qed
      also have "\<dots> = interpolate totalDuration ((timed @ ?filled) @ ?post) (length (timed @ ?filled))"
        by (simp add: length_fill_from)
      also have "\<dots> = (timed @ ?filled) @ interpolated totalDuration (prev_end (timed @ ?filled)) ?post"
      proof (rule less.hyps)
        show "length ?post < length r" using Cons length_dropWhile_le[of gap ts] by simp
        show "timed_all (timed @ ?filled)" using less.prems(1) tf by (simp add: timed_all_append)
        show "marked ?post" by (rule mp)
      qed
      also have "interpolated totalDuration (prev_end (timed @ ?filled)) ?post =
          interpolated totalDuration (prev_end timed) ?post"
        using hp by (rule interpolated_prevEnd_irrelevant)
      finally show ?thesis using True Cons r
        by (simp add: interpolated.simps(2) Let_def)
    qed
  qed
qed

lemma timed_all_interpolated:
  "marked r \<Longrightarrow> 0 \<le> prevEnd \<Longrightarrow> 0 \<le> totalDuration \<Longrightarrow>
   timed_all (interpolated totalDuration prevEnd r)"
proof (induction totalDuration prevEnd r rule: interpolated.induct)
  case (1 totalDuration prevEnd)
  then show ?case by (simp add: timed_all_def)
next
  case (2 totalDuration prevEnd t ts)
  show ?case
  proof (cases "gap t")
    case False
    then have nn: "0 \<le> start t \<and> 0 \<le> end_time t"
      using marked_not_gap[OF "2.prems"(1)] by simp
    have "timed_all (interpolated totalDuration (end_time t) ts)"
      using "2.IH"(1)[OF False] "2.prems" nn marked_Cons by blast
    with False nn show ?thesis by (simp add: interpolated.simps(2) timed_all_def)
  next
    case True
    let ?run = "t # takeWhile gap ts"
    let ?post = "dropWhile gap ts"
    let ?nextStart = "case ?post of [] \<Rightarrow> totalDuration | u # _ \<Rightarrow> start u"
    let ?step = "(?nextStart - prevEnd) / real (length ?run + 1)"
    have mp: "marked ?post" using "2.prems"(1) marked_Cons marked_dropWhile by blast
    have ns: "0 \<le> ?nextStart" using mp "2.prems"(3) dropWhile_head by (rule next_start_nonneg)
    have tf: "timed_all (fill_from prevEnd ?step 0 ?run)"
      using "2.prems"(2) ns by (rule timed_all_fill_from)
    have "timed_all (interpolated totalDuration prevEnd ?post)"
      using "2.IH"(2)[OF _ refl refl refl refl] True mp "2.prems" by simp
    with tf True show ?thesis
      by (simp add: interpolated.simps(2) Let_def timed_all_append)
  qed
qed

lemma ex3_walk:
  "align_loop toLowerCase ex3_whisper ex3_original ([], 0, 0) =
     ([\<lparr>word = w_privet, start = 9, end_time = 10\<rparr>,
       \<lparr>word = 0x20 # w_kak, start = - 1, end_time = - 1\<rparr>,
       \<lparr>word = 0x20 # w_mir, start = - 1, end_time = - 1\<rparr>,
       \<lparr>word = 0x20 # w_dela, start = 13, end_time = 14\<rparr>], 2, 4)"
  by code_simp

lemma neg_walk:
  "align_loop toLowerCase (neg_whisper s e) neg_original ([], 0, 0) =
     ([\<lparr>word = w_kak, start = - 1, end_time = - 1\<rparr>,
       \<lparr>word = 0x20 # w_dela, start = s, end_time = e\<rparr>], 1, 2)"
  by code_simp

section \<open>What the walk leaves for the interpolation\<close>

lemma align_loop_invariant:
  assumes "P result wi oi"
    and "\<And>result wi oi result' wi' oi'.
           P result wi oi \<Longrightarrow> oi < length originalWords \<Longrightarrow>
           align_step lc whisperWords originalWords (result, wi, oi) = (result', wi', oi') \<Longrightarrow>
           P result' wi' oi'"
    and "align_loop lc whisperWords originalWords (result, wi, oi) = (result', wi', oi')"
  shows "P result' wi' oi'"
  using assms(1,3)
proof (induction "length originalWords - oi" arbitrary: result wi oi rule: less_induct)
  case less
  show ?case
  proof (cases "oi < length originalWords")
    case True
    obtain r1 w1 o1 where st: "align_step lc whisperWords originalWords (result, wi, oi) = (r1, w1, o1)"
      by (cases "align_step lc whisperWords originalWords (result, wi, oi)") auto
    have lp: "align_loop lc whisperWords originalWords (r1, w1, o1) = (result', wi', oi')"
      using less.prems(2) True st by (subst (asm) align_loop.simps) simp
    have "length originalWords - o1 < length originalWords - oi"
      using align_step_oi[OF True st] True by linarith
    from less.hyps[OF this assms(2)[OF less.prems(1) True st] lp] show ?thesis .
  next
    case False
    then have "align_loop lc whisperWords originalWords (result, wi, oi) = (result, wi, oi)"
      by (subst align_loop.simps) simp
    with less.prems show ?thesis by simp
  qed
qed

text \<open>
  The shape of a step: it appends one word timed by a whisper word at \<open>k \<ge> wi\<close> and
  moves \<open>wi\<close> behind it, or it appends waiting words and leaves \<open>wi\<close>.
\<close>

lemma align_step_cases:
  assumes "align_step lc whisperWords originalWords (result, wi, oi) = (result', wi', oi')"
  obtains (timed) k w where "wi \<le> k" "k < length whisperWords" "wi' = k + 1"
      "result' = result @ [\<lparr>word = w, start = start (whisperWords ! k),
                               end_time = end_time (whisperWords ! k)\<rparr>]"
    | (waiting) ws where "wi' = wi" "result' = result @ ws"
      "\<forall>t \<in> set ws. start t = - 1 \<and> end_time t = - 1"
proof (cases "wi < length whisperWords")
  case False
  with assms have "wi' = wi"
    "result' = result @ [\<lparr>word = (if oi > 0 then [0x20] else []) @ originalWords ! oi,
                             start = - 1, end_time = - 1\<rparr>]"
    by (auto simp: align_step.simps Let_def)
  then show ?thesis by (intro waiting) auto
next
  case wl: True
  let ?origBase = "base_form lc (originalWords ! oi)"
  let ?whisperBase = "base_form lc (word (whisperWords ! wi))"
  show ?thesis
  proof (cases "?origBase = ?whisperBase \<or> isFuzzyMatch ?origBase ?whisperBase")
    case True
    with wl assms have "wi' = wi + 1"
      "result' = result @ [\<lparr>word = (if oi > 0 then [0x20] else []) @ originalWords ! oi,
                               start = start (whisperWords ! wi),
                               end_time = end_time (whisperWords ! wi)\<rparr>]"
      by (auto simp: align_step.simps Let_def)
    with wl show ?thesis by (intro timed[of wi]) auto
  next
    case nm: False
    show ?thesis
    proof (cases "lookahead_whisper lc whisperWords wi ?origBase 1")
      case (Some la)
      from lookahead_whisper_bounds[OF Some] have b: "wi + la < length whisperWords" by simp
      from Some nm wl assms have "wi' = wi + la + 1"
        "result' = result @ [\<lparr>word = (if oi > 0 then [0x20] else []) @ originalWords ! oi,
                                 start = start (whisperWords ! (wi + la)),
                                 end_time = end_time (whisperWords ! (wi + la))\<rparr>]"
        by (auto simp: align_step.simps Let_def)
      with b show ?thesis by (intro timed[of "wi + la"]) auto
    next
      case None
      show ?thesis
      proof (cases "lookahead_original lc originalWords oi ?whisperBase 1")
        case n2: None
        with None nm wl assms have "wi' = wi"
          "result' = result @ [\<lparr>word = (if oi > 0 then [0x20] else []) @ originalWords ! oi,
                                   start = - 1, end_time = - 1\<rparr>]"
          by (auto simp: align_step.simps Let_def)
        then show ?thesis by (intro waiting) auto
      next
        case (Some la)
        with None nm wl assms have "wi' = wi"
          "result' = result @
             map (\<lambda>skip. \<lparr>word = (if oi + skip > 0 then [0x20] else []) @ originalWords ! (oi + skip),
                            start = - 1, end_time = - 1\<rparr>) [0..<la]"
          by (auto simp: align_step.simps Let_def)
        then show ?thesis by (intro waiting) auto
      qed
    qed
  qed
qed

lemma align_loop_marked:
  assumes "\<forall>w \<in> set whisperWords. 0 \<le> start w \<and> 0 \<le> end_time w"
    and "align_loop lc whisperWords originalWords ([], 0, 0) = (result, wi, oi)"
  shows "marked result"
proof (rule align_loop_invariant[where P = "\<lambda>result wi oi. marked result", OF _ _ assms(2)])
  show "marked []" by (simp add: marked_def)
next
  fix result wi oi result' wi' oi'
  assume m: "marked result"
    and st: "align_step lc whisperWords originalWords (result, wi, oi) = (result', wi', oi')"
  from st show "marked result'"
  proof (cases rule: align_step_cases)
    case (timed k w)
    with assms(1) m show ?thesis by (auto simp: marked_def)
  next
    case (waiting ws)
    with m show ?thesis by (auto simp: marked_def)
  qed
qed

section \<open>Every maximal run is filled between its neighbours\<close>

lemma length_interpolated: "length (interpolated totalDuration prevEnd r) = length r"
proof (induction totalDuration prevEnd r rule: interpolated.induct)
  case (1 totalDuration prevEnd)
  show ?case by simp
next
  case (2 totalDuration prevEnd t ts)
  show ?case
  proof (cases "gap t")
    case False
    with "2.IH"(1) show ?thesis by (simp add: interpolated.simps(2))
  next
    case True
    have "length (takeWhile gap ts) + length (dropWhile gap ts) = length ts"
      using takeWhile_dropWhile_id[of gap ts] length_append[of "takeWhile gap ts" "dropWhile gap ts"]
      by simp
    with True "2.IH"(2)[OF _ refl refl refl refl] show ?thesis
      by (simp add: interpolated.simps(2) Let_def length_fill_from)
  qed
qed

lemma takeWhile_run:
  assumes "\<forall>t \<in> set run. gap t" "post = [] \<or> \<not> gap (hd post)"
  shows "takeWhile gap (run @ post) = run" and "dropWhile gap (run @ post) = post"
proof -
  have tp: "takeWhile gap post = []" and dp: "dropWhile gap post = post"
    using assms(2) by (cases post; simp)+
  show "takeWhile gap (run @ post) = run"
    using assms(1) tp by (simp add: takeWhile_append2)
  show "dropWhile gap (run @ post) = post"
    using assms(1) dp by (simp add: dropWhile_append2)
qed

lemma last_dropWhile: "dropWhile P xs \<noteq> [] \<Longrightarrow> last (dropWhile P xs) = last xs"
  by (induction xs) (auto split: if_splits)

lemma interpolated_run:
  assumes "\<forall>t \<in> set run. gap t" "run \<noteq> []" "post = [] \<or> \<not> gap (hd post)"
  shows "pre = [] \<or> \<not> gap (last pre) \<Longrightarrow>
     interpolated totalDuration prevEnd (pre @ run @ post) =
       interpolated totalDuration prevEnd pre @
       fill_from (if pre = [] then prevEnd else end_time (last pre))
         (((case post of [] \<Rightarrow> totalDuration | u # _ \<Rightarrow> start u) -
           (if pre = [] then prevEnd else end_time (last pre))) / real (length run + 1)) 0 run @
       interpolated totalDuration (if pre = [] then prevEnd else end_time (last pre)) post"
proof (induction "length pre" arbitrary: pre prevEnd rule: less_induct)
  case less
  show ?case
  proof (cases pre)
    case Nil
    obtain t run' where run: "run = t # run'" using assms(2) by (cases run) auto
    have g: "gap t" "\<forall>u \<in> set run'. gap u" using assms(1) run by simp_all
    from takeWhile_run[OF g(2) assms(3)] g(1) Nil run show ?thesis
      by (simp add: interpolated.simps(2) Let_def)
  next
    case (Cons t pre1)
    show ?thesis
    proof (cases "gap t")
      case False
      have "interpolated totalDuration (end_time t) (pre1 @ run @ post) =
          interpolated totalDuration (end_time t) pre1 @
          fill_from (if pre1 = [] then end_time t else end_time (last pre1))
            (((case post of [] \<Rightarrow> totalDuration | u # _ \<Rightarrow> start u) -
              (if pre1 = [] then end_time t else end_time (last pre1))) / real (length run + 1)) 0 run @
          interpolated totalDuration (if pre1 = [] then end_time t else end_time (last pre1)) post"
        using less.prems Cons by (intro less.hyps) (auto split: if_splits)
      with False Cons show ?thesis by (simp add: interpolated.simps(2))
    next
      case True
      have ne: "pre1 \<noteq> []" and lp: "\<not> gap (last pre1)"
        using less.prems Cons True by (auto split: if_splits)
      then have ex: "last pre1 \<in> set pre1" "\<not> gap (last pre1)" by simp_all
      let ?post1 = "dropWhile gap pre1"
      have tw: "takeWhile gap (pre1 @ run @ post) = takeWhile gap pre1"
        using ex by (rule takeWhile_append1)
      have dw: "dropWhile gap (pre1 @ run @ post) = ?post1 @ run @ post"
        using ex by (rule dropWhile_append1)
      have p1: "?post1 \<noteq> []" using ex by (auto simp: dropWhile_eq_Nil_conv)
      have l1: "last ?post1 = last pre1" using p1 by (rule last_dropWhile)
      have hd1: "(case ?post1 @ run @ post of [] \<Rightarrow> totalDuration | u # _ \<Rightarrow> start u) =
          (case ?post1 of [] \<Rightarrow> totalDuration | u # _ \<Rightarrow> start u)"
        using p1 by (cases ?post1) auto
      have ih0: "interpolated totalDuration prevEnd (?post1 @ run @ post) =
          interpolated totalDuration prevEnd ?post1 @
          fill_from (if ?post1 = [] then prevEnd else end_time (last ?post1))
            (((case post of [] \<Rightarrow> totalDuration | u # _ \<Rightarrow> start u) -
              (if ?post1 = [] then prevEnd else end_time (last ?post1))) / real (length run + 1)) 0 run @
          interpolated totalDuration (if ?post1 = [] then prevEnd else end_time (last ?post1)) post"
      proof (rule less.hyps)
        show "length ?post1 < length pre" using Cons length_dropWhile_le[of gap pre1] by simp
        show "?post1 = [] \<or> \<not> gap (last ?post1)" using l1 lp by simp
      qed
      have ih: "interpolated totalDuration prevEnd (?post1 @ run @ post) =
          interpolated totalDuration prevEnd ?post1 @
          fill_from (end_time (last pre1))
            (((case post of [] \<Rightarrow> totalDuration | u # _ \<Rightarrow> start u) -
              end_time (last pre1)) / real (length run + 1)) 0 run @
          interpolated totalDuration (end_time (last pre1)) post"
        using ih0 unfolding if_not_P[OF p1] l1 .
      let ?st1 = "((case ?post1 of [] \<Rightarrow> totalDuration | u # _ \<Rightarrow> start u) - prevEnd) /
          real (length (t # takeWhile gap pre1) + 1)"
      have L: "interpolated totalDuration prevEnd (pre @ run @ post) =
          fill_from prevEnd ?st1 0 (t # takeWhile gap pre1) @
          interpolated totalDuration prevEnd (?post1 @ run @ post)"
        unfolding Cons append_Cons interpolated.simps(2) Let_def tw dw hd1 using True by simp
      have R: "interpolated totalDuration prevEnd pre =
          fill_from prevEnd ?st1 0 (t # takeWhile gap pre1) @
          interpolated totalDuration prevEnd ?post1"
        unfolding Cons interpolated.simps(2) Let_def using True by simp
      have lastpre: "(if pre = [] then prevEnd else end_time (last pre)) = end_time (last pre1)"
        using Cons ne by simp
      show ?thesis unfolding lastpre L R ih by simp
    qed
  qed
qed

lemma alignWhisperToOriginal_interpolated:
  assumes "whisperWords \<noteq> []" "originalWords \<noteq> []"
    and "\<forall>w \<in> set whisperWords. 0 \<le> start w \<and> 0 \<le> end_time w"
  shows "alignWhisperToOriginal lc whisperWords originalWords =
         interpolated (end_time (last whisperWords)) 0
           (fst (align_loop lc whisperWords originalWords ([], 0, 0)))"
    and "marked (fst (align_loop lc whisperWords originalWords ([], 0, 0)))"
    and "0 \<le> end_time (last whisperWords)"
proof -
  obtain r w o' where al: "align_loop lc whisperWords originalWords ([], 0, 0) = (r, w, o')"
    by (cases "align_loop lc whisperWords originalWords ([], 0, 0)") auto
  show m: "marked (fst (align_loop lc whisperWords originalWords ([], 0, 0)))"
    using align_loop_marked[OF assms(3) al] al by simp
  show t: "0 \<le> end_time (last whisperWords)"
    using assms(1,3) last_in_set by blast
  have "timed_all []" by (simp add: timed_all_def)
  from interpolate_eq[OF t this, of r] m al
  have "interpolate (end_time (last whisperWords)) r 0 =
      interpolated (end_time (last whisperWords)) 0 r"
    by (simp add: prev_end_def)
  with al assms(1,2) show "alignWhisperToOriginal lc whisperWords originalWords =
         interpolated (end_time (last whisperWords)) 0
           (fst (align_loop lc whisperWords originalWords ([], 0, 0)))"
    by (simp add: alignWhisperToOriginal_def last_conv_nth)
qed

lemma align_loop_empty_original:
  "align_loop lc whisperWords [] ([], 0, 0) = ([], 0, 0)"
  by (subst align_loop.simps) simp

text \<open>
  C3, as the code has it: when no whisper time is negative. After the walk, a maximal run
  of \<open>g\<close> waiting words between \<open>prevEnd\<close> (the end of the word before the run, 0 when the
  run is first) and \<open>nextStart\<close> (the start of the word after the run, the end of the last
  whisper word when the run is last) gets, for \<open>p = 1..g\<close>, the start
  \<open>prevEnd + step * p\<close> and the end \<open>prevEnd + step * (p + 0.8)\<close>, with
  \<open>step = (nextStart - prevEnd) / (g + 1)\<close>; for \<open>prevEnd = 10\<close>, \<open>nextStart = 13\<close>, \<open>g = 2\<close>
  these are 11, 11.8 and 12, 12.8. No word of the result keeps the sentinel \<open>-1\<close>.
\<close>

theorem interpolation_fills_gaps:
  fixes lc :: "jstring \<Rightarrow> jstring"
    and whisperWords :: "timed_word list" and originalWords :: "jstring list"
    and pre run post :: "timed_word list"
  defines "out \<equiv> alignWhisperToOriginal lc whisperWords originalWords"
    and "prevEnd \<equiv> (if pre = [] then 0 else end_time (last pre))"
    and "nextStart \<equiv> (if post = [] then end_time (last whisperWords) else start (hd post))"
  defines "step \<equiv> (nextStart - prevEnd) / real (length run + 1)"
  assumes ne: "whisperWords \<noteq> []"
    and nn: "\<forall>w \<in> set whisperWords. 0 \<le> start w \<and> 0 \<le> end_time w"
  shows "(fst (align_loop lc whisperWords originalWords ([], 0, 0)) = pre @ run @ post \<and>
          run \<noteq> [] \<and> (\<forall>t \<in> set run. start t = - 1) \<and>
          (pre = [] \<or> start (last pre) \<noteq> - 1) \<and> (post = [] \<or> start (hd post) \<noteq> - 1) \<longrightarrow>
            (\<forall>p. 1 \<le> p \<and> p \<le> length run \<longrightarrow>
               out ! (length pre + p - 1) =
                 (run ! (p - 1))\<lparr>start := prevEnd + step * real p,
                                  end_time := prevEnd + step * (real p + 0.8)\<rparr>) \<and>
            (prevEnd = 10 \<and> nextStart = 13 \<and> length run = 2 \<longrightarrow>
               start (out ! length pre) = 11 \<and> end_time (out ! length pre) = 11.8 \<and>
               start (out ! (length pre + 1)) = 12 \<and> end_time (out ! (length pre + 1)) = 12.8)) \<and>
         (\<forall>t \<in> set out. start t \<noteq> - 1 \<and> end_time t \<noteq> - 1)"
proof (cases "originalWords = []")
  case True
  then have "out = []" by (simp add: out_def alignWhisperToOriginal_def)
  with True show ?thesis by (simp add: align_loop_empty_original)
next
  case False
  let ?total = "end_time (last whisperWords)"
  let ?r = "fst (align_loop lc whisperWords originalWords ([], 0, 0))"
  note facts = alignWhisperToOriginal_interpolated[OF ne False nn]
  have out: "out = interpolated ?total 0 ?r" unfolding out_def by (rule facts(1))
  have "timed_all out"
    unfolding out using facts(2) _ facts(3) by (rule timed_all_interpolated) simp
  then have no_sentinel: "\<forall>t \<in> set out. start t \<noteq> - 1 \<and> end_time t \<noteq> - 1"
    by (fastforce simp: timed_all_def)
  have filled: "out ! (length pre + p - 1) =
        (run ! (p - 1))\<lparr>start := prevEnd + step * real p,
                         end_time := prevEnd + step * (real p + 0.8)\<rparr>"
    if dec: "?r = pre @ run @ post" "run \<noteq> []" "\<forall>t \<in> set run. start t = - 1"
      "pre = [] \<or> start (last pre) \<noteq> - 1" "post = [] \<or> start (hd post) \<noteq> - 1"
      and p: "1 \<le> p" "p \<le> length run" for p
  proof -
    have ns: "(case post of [] \<Rightarrow> ?total | u # _ \<Rightarrow> start u) = nextStart"
      by (cases post) (simp_all add: nextStart_def)
    have "out = interpolated ?total 0 pre @ fill_from prevEnd step 0 run @
        interpolated ?total prevEnd post"
      unfolding out dec(1) prevEnd_def step_def ns[symmetric]
      using dec(2-5) by (intro interpolated_run) (auto simp: gap_def)
    then have "out ! (length pre + p - 1) = fill_from prevEnd step 0 run ! (p - 1)"
      using p by (simp add: nth_append length_interpolated length_fill_from)
    also have "\<dots> = (run ! (p - 1))\<lparr>start := prevEnd + step * real (0 + (p - 1) + 1),
                         end_time := prevEnd + step * (real (0 + (p - 1) + 1) + 0.8)\<rparr>"
      using p by (intro nth_fill_from) simp
    finally show ?thesis using p by simp
  qed
  have example: "start (out ! length pre) = 11 \<and> end_time (out ! length pre) = 11.8 \<and>
      start (out ! (length pre + 1)) = 12 \<and> end_time (out ! (length pre + 1)) = 12.8"
    if dec: "?r = pre @ run @ post" "run \<noteq> []" "\<forall>t \<in> set run. start t = - 1"
      "pre = [] \<or> start (last pre) \<noteq> - 1" "post = [] \<or> start (hd post) \<noteq> - 1"
      and v: "prevEnd = 10" "nextStart = 13" "length run = 2"
  proof -
    have st: "step = 1" using v by (simp add: step_def)
    from filled[OF dec, of 1] filled[OF dec, of 2] v st show ?thesis by simp
  qed
  from filled example no_sentinel show ?thesis by blast
qed

theorem interpolation_fills_gaps_witness:
  "ex3_whisper \<noteq> [] \<and>
   fst (align_loop toLowerCase ex3_whisper ex3_original ([], 0, 0)) =
     [\<lparr>word = w_privet, start = 9, end_time = 10\<rparr>] @
     [\<lparr>word = 0x20 # w_kak, start = - 1, end_time = - 1\<rparr>,
      \<lparr>word = 0x20 # w_mir, start = - 1, end_time = - 1\<rparr>] @
     [\<lparr>word = 0x20 # w_dela, start = 13, end_time = 14\<rparr>] \<and>
   alignWhisperToOriginal toLowerCase ex3_whisper ex3_original ! 1 =
     \<lparr>word = 0x20 # w_kak, start = 11, end_time = 11.8\<rparr> \<and>
   alignWhisperToOriginal toLowerCase ex3_whisper ex3_original ! 2 =
     \<lparr>word = 0x20 # w_mir, start = 12, end_time = 12.8\<rparr> \<and>
   start (alignWhisperToOriginal toLowerCase ex3_whisper ex3_original ! 3) \<noteq> - 1"
proof -
  let ?pre = "[\<lparr>word = w_privet, start = 9, end_time = 10\<rparr>]"
  let ?run = "[\<lparr>word = 0x20 # w_kak, start = - 1, end_time = - 1\<rparr>,
      \<lparr>word = 0x20 # w_mir, start = - 1, end_time = - 1\<rparr>]"
  let ?post = "[\<lparr>word = 0x20 # w_dela, start = 13, end_time = 14\<rparr>]"
  let ?out = "alignWhisperToOriginal toLowerCase ex3_whisper ex3_original"
  have ne: "ex3_whisper \<noteq> []" by (simp add: ex3_whisper_def)
  have nn: "\<forall>w \<in> set ex3_whisper. 0 \<le> start w \<and> 0 \<le> end_time w"
    by (simp add: ex3_whisper_def)
  have walk: "fst (align_loop toLowerCase ex3_whisper ex3_original ([], 0, 0)) = ?pre @ ?run @ ?post"
    by (simp add: ex3_walk)
  have len: "length ?out = 4"
    using map_word_alignWhisperToOriginal[of toLowerCase ex3_whisper ex3_original]
      length_map[of word ?out] by (simp add: length_spaced ex3_original_def)
  note inst = interpolation_fills_gaps[OF ne nn, where lc = toLowerCase
      and originalWords = ex3_original and pre = "?pre" and run = "?run" and post = "?post"]
  from inst walk have f: "\<forall>p. 1 \<le> p \<and> p \<le> length ?run \<longrightarrow>
      ?out ! (length ?pre + p - 1) =
        (?run ! (p - 1))\<lparr>start := 10 + (13 - 10) / real (length ?run + 1) * real p,
                          end_time := 10 + (13 - 10) / real (length ?run + 1) * (real p + 0.8)\<rparr>"
    by simp
  from f[rule_format, of 1] have o1: "?out ! 1 = \<lparr>word = 0x20 # w_kak, start = 11, end_time = 11.8\<rparr>"
    by simp
  from f[rule_format, of 2] have o2: "?out ! 2 = \<lparr>word = 0x20 # w_mir, start = 12, end_time = 12.8\<rparr>"
    by (simp add: numeral_2_eq_2)
  from inst len have o3: "start (?out ! 3) \<noteq> - 1" by simp
  from ne walk o1 o2 o3 show ?thesis by blast
qed

lemma neg_two_result:
  "alignWhisperToOriginal toLowerCase (neg_whisper (- 2) (- 2)) neg_original =
     [\<lparr>word = w_kak, start = - 1, end_time = - 9 / 5\<rparr>,
      \<lparr>word = 0x20 # w_dela, start = - 2, end_time = - 2\<rparr>]"
  by (simp add: alignWhisperToOriginal_def neg_walk)
     (simp add: neg_whisper_def neg_original_def interpolate.simps find_nextStart.simps fill_gap.simps)

theorem interpolation_fills_gaps_counterexample:
  "neg_whisper (- 2) (- 2) \<noteq> [] \<and>
   start (alignWhisperToOriginal toLowerCase (neg_whisper (- 2) (- 2)) neg_original ! 0) = - 1"
  by (simp add: neg_two_result) (simp add: neg_whisper_def)

section \<open>Start before end\<close>

lemma chain_append: "chain lo (r @ s) = (chain lo r \<and> chain (last_end lo r) s)"
  by (induction r arbitrary: lo) auto

lemma last_end_append: "last_end lo (r @ s) = last_end (last_end lo r) s"
  by (induction r arbitrary: lo) auto

lemma chain_waiting: "\<forall>t \<in> set ws. gap t \<Longrightarrow> chain lo ws \<and> last_end lo ws = lo"
  by (induction ws) auto

lemma chain_dropWhile: "chain lo (dropWhile gap ts) = chain lo ts"
  by (induction ts) auto

lemma last_end_dropWhile: "last_end lo (dropWhile gap ts) = last_end lo ts"
  by (induction ts) auto

lemma fill_from_start_le_end:
  assumes "0 \<le> step"
  shows "\<forall>u \<in> set (fill_from prevEnd step pos run). start u \<le> end_time u"
proof -
  have "prevEnd + step * real (k + 1) \<le> prevEnd + step * (real (k + 1) + 0.8)" for k
    using assms by (simp add: mult_left_mono)
  then show ?thesis by (auto simp: fill_from_def)
qed

lemma interpolated_start_le_end:
  "chain prevEnd r \<Longrightarrow> last_end prevEnd r \<le> totalDuration \<Longrightarrow>
   \<forall>u \<in> set (interpolated totalDuration prevEnd r). start u \<le> end_time u"
proof (induction totalDuration prevEnd r rule: interpolated.induct)
  case (1 totalDuration prevEnd)
  show ?case by simp
next
  case (2 totalDuration prevEnd t ts)
  show ?case
  proof (cases "gap t")
    case False
    with "2.prems" "2.IH"(1)[OF False] show ?thesis
      by (simp add: interpolated.simps(2))
  next
    case True
    let ?run = "t # takeWhile gap ts"
    let ?post = "dropWhile gap ts"
    let ?nextStart = "case ?post of [] \<Rightarrow> totalDuration | u # _ \<Rightarrow> start u"
    let ?step = "(?nextStart - prevEnd) / real (length ?run + 1)"
    have cp: "chain prevEnd ?post" and lp: "last_end prevEnd ?post \<le> totalDuration"
      using "2.prems" True by (simp_all add: chain_dropWhile last_end_dropWhile)
    have "prevEnd \<le> ?nextStart"
    proof (cases ?post)
      case Nil
      from lp have "prevEnd \<le> totalDuration" unfolding Nil by simp
      then show ?thesis unfolding Nil by simp
    next
      case (Cons u us)
      have "\<not> gap u" using hd_dropWhile[of gap ts] unfolding Cons by simp
      moreover have "chain prevEnd (u # us)" using cp unfolding Cons .
      ultimately have "prevEnd \<le> start u" by simp
      then show ?thesis unfolding Cons by simp
    qed
    then have "0 \<le> ?step" by simp
    then have "\<forall>u \<in> set (fill_from prevEnd ?step 0 ?run). start u \<le> end_time u"
      by (rule fill_from_start_le_end)
    moreover have "\<forall>u \<in> set (interpolated totalDuration prevEnd ?post). start u \<le> end_time u"
      using "2.IH"(2)[OF _ refl refl refl refl cp lp] True by simp
    ultimately show ?thesis using True
      by (auto simp: interpolated.simps(2) Let_def)
  qed
qed

lemma chronological:
  assumes "\<forall>w \<in> set whisperWords. start w \<le> end_time w"
    and "\<forall>k. k + 1 < length whisperWords \<longrightarrow>
           end_time (whisperWords ! k) \<le> start (whisperWords ! (k + 1))"
  shows "a < b \<Longrightarrow> b < length whisperWords \<Longrightarrow>
         end_time (whisperWords ! a) \<le> start (whisperWords ! b)"
proof (induction b)
  case 0
  then show ?case by simp
next
  case (Suc b)
  show ?case
  proof (cases "a = b")
    case True
    with Suc.prems assms(2) show ?thesis by simp
  next
    case False
    with Suc have "end_time (whisperWords ! a) \<le> start (whisperWords ! b)" by simp
    also have "\<dots> \<le> end_time (whisperWords ! b)" using assms(1) Suc.prems by simp
    also have "\<dots> \<le> start (whisperWords ! Suc b)" using assms(2) Suc.prems by simp
    finally show ?thesis .
  qed
qed

lemma align_loop_chain:
  assumes nn: "\<forall>w \<in> set whisperWords. 0 \<le> start w \<and> start w \<le> end_time w"
    and chr: "\<forall>k. k + 1 < length whisperWords \<longrightarrow>
           end_time (whisperWords ! k) \<le> start (whisperWords ! (k + 1))"
    and ne: "whisperWords \<noteq> []"
    and al: "align_loop lc whisperWords originalWords ([], 0, 0) = (result, wi, oi)"
  shows "chain 0 result \<and> last_end 0 result \<le> end_time (last whisperWords)"
proof -
  let ?total = "end_time (last whisperWords)"
  let ?P = "\<lambda>(result :: timed_word list) (wi :: nat) (oi :: nat).
      chain 0 result \<and> last_end 0 result \<le> ?total \<and>
      (\<forall>k. wi \<le> k \<and> k < length whisperWords \<longrightarrow> last_end 0 result \<le> start (whisperWords ! k))"
  have se: "start w \<le> end_time w" if "w \<in> set whisperWords" for w using nn that by simp
  have mono: "end_time (whisperWords ! a) \<le> start (whisperWords ! b)"
    if "a < b" "b < length whisperWords" for a b
    using chronological[OF _ chr that] nn by simp
  have to_total: "end_time (whisperWords ! k) \<le> ?total" if "k < length whisperWords" for k
  proof (cases "k = length whisperWords - 1")
    case True
    then show ?thesis using ne by (simp add: last_conv_nth)
  next
    case False
    then have lt: "k < length whisperWords - 1" using that by simp
    have "end_time (whisperWords ! k) \<le> start (whisperWords ! (length whisperWords - 1))"
      using lt ne by (intro mono) simp_all
    also have "\<dots> \<le> end_time (whisperWords ! (length whisperWords - 1))"
      using ne by (intro se) simp
    finally show ?thesis using ne by (simp add: last_conv_nth)
  qed
  have "?P result wi oi"
  proof (rule align_loop_invariant[where P = ?P, OF _ _ al])
    show "?P [] 0 0" using nn ne by (auto intro: order_trans[of 0])
  next
    fix result wi oi result' wi' oi'
    assume P: "?P result wi oi"
      and st: "align_step lc whisperWords originalWords (result, wi, oi) = (result', wi', oi')"
    from st show "?P result' wi' oi'"
    proof (cases rule: align_step_cases)
      case (timed k w)
      let ?t = "\<lparr>word = w, start = start (whisperWords ! k), end_time = end_time (whisperWords ! k)\<rparr>"
      have "0 \<le> start (whisperWords ! k)" using nn nth_mem[OF timed(2)] by blast
      then have ng: "\<not> gap ?t" by (simp add: gap_def)
      have le: "last_end 0 result \<le> start (whisperWords ! k)" using P timed(1,2) by simp
      have s: "start (whisperWords ! k) \<le> end_time (whisperWords ! k)"
        using timed(2) by (intro se) simp
      have c: "chain 0 result'" using P ng le s timed(4) by (simp add: chain_append)
      have l: "last_end 0 result' = end_time (whisperWords ! k)"
        using ng timed(4) by (simp add: last_end_append)
      have "last_end 0 result' \<le> start (whisperWords ! j)" if "wi' \<le> j" "j < length whisperWords" for j
        unfolding l using that timed(3) by (intro mono) simp_all
      with c l to_total[OF timed(2)] show ?thesis by simp
    next
      case (waiting ws)
      then have "\<forall>t \<in> set ws. gap t" by (simp add: gap_def)
      from chain_waiting[OF this] P waiting(1,2) show ?thesis
        by (simp add: chain_append last_end_append)
    qed
  qed
  then show ?thesis by simp
qed

text \<open>
  C4, as the code has it: when no whisper time is negative. If each whisper word starts
  at or after 0 and not after its end, and each starts at or after the end of the word
  before it, then every word of the result has its start not after its end.
\<close>

theorem alignWhisperToOriginal_start_le_end:
  assumes "\<forall>w \<in> set whisperWords. 0 \<le> start w \<and> start w \<le> end_time w"
    and "\<forall>k. k + 1 < length whisperWords \<longrightarrow>
           end_time (whisperWords ! k) \<le> start (whisperWords ! (k + 1))"
  shows "\<forall>t \<in> set (alignWhisperToOriginal lc whisperWords originalWords). start t \<le> end_time t"
proof (cases "whisperWords = [] \<or> originalWords = []")
  case True
  then show ?thesis by (auto simp: alignWhisperToOriginal_def)
next
  case False
  then have ne: "whisperWords \<noteq> []" "originalWords \<noteq> []" by simp_all
  have nn: "\<forall>w \<in> set whisperWords. 0 \<le> start w \<and> 0 \<le> end_time w"
    using assms(1) by force
  obtain r w o' where al: "align_loop lc whisperWords originalWords ([], 0, 0) = (r, w, o')"
    by (cases "align_loop lc whisperWords originalWords ([], 0, 0)") auto
  from align_loop_chain[OF assms ne(1) al]
  have "\<forall>u \<in> set (interpolated (end_time (last whisperWords)) 0 r). start u \<le> end_time u"
    by (intro interpolated_start_le_end) simp_all
  then show ?thesis
    using alignWhisperToOriginal_interpolated(1)[OF ne nn, of lc] al by simp
qed

theorem alignWhisperToOriginal_start_le_end_witness:
  "start (alignWhisperToOriginal toLowerCase ex3_whisper ex3_original ! 1) \<le>
     end_time (alignWhisperToOriginal toLowerCase ex3_whisper ex3_original ! 1) \<and>
   start (alignWhisperToOriginal toLowerCase ex3_whisper ex3_original ! 3) \<le>
     end_time (alignWhisperToOriginal toLowerCase ex3_whisper ex3_original ! 3)"
proof -
  let ?out = "alignWhisperToOriginal toLowerCase ex3_whisper ex3_original"
  have h1: "\<forall>w \<in> set ex3_whisper. 0 \<le> start w \<and> start w \<le> end_time w"
    by (simp add: ex3_whisper_def)
  have h2: "\<forall>k. k + 1 < length ex3_whisper \<longrightarrow>
      end_time (ex3_whisper ! k) \<le> start (ex3_whisper ! (k + 1))"
    by (simp add: ex3_whisper_def)
  have len: "length ?out = 4"
    using map_word_alignWhisperToOriginal[of toLowerCase ex3_whisper ex3_original]
      length_map[of word ?out] by (simp add: length_spaced ex3_original_def)
  from alignWhisperToOriginal_start_le_end[OF h1 h2, of toLowerCase ex3_original] len
  show ?thesis by simp
qed

lemma neg_five_result:
  "alignWhisperToOriginal toLowerCase (neg_whisper (- 5) (- 4)) neg_original =
     [\<lparr>word = w_kak, start = - 5 / 2, end_time = - 9 / 2\<rparr>,
      \<lparr>word = 0x20 # w_dela, start = - 5, end_time = - 4\<rparr>]"
  by (simp add: alignWhisperToOriginal_def neg_walk)
     (simp add: neg_whisper_def neg_original_def interpolate.simps find_nextStart.simps fill_gap.simps)

theorem alignWhisperToOriginal_start_le_end_counterexample:
  "list_all (\<lambda>w. start w \<le> end_time w) (neg_whisper (- 5) (- 4)) \<and>
   length (neg_whisper (- 5) (- 4)) = 1 \<and>
   \<not> start (alignWhisperToOriginal toLowerCase (neg_whisper (- 5) (- 4)) neg_original ! 0) \<le>
       end_time (alignWhisperToOriginal toLowerCase (neg_whisper (- 5) (- 4)) neg_original ! 0)"
  by (simp add: neg_five_result) (simp add: neg_whisper_def)

end
